theory Spec2Isabelle
  imports Main "HOL-Library.Word"
begin

unbundle bit_operations_syntax

section \<open>Data model of scheduler.c\<close>

text \<open>
  The struct declarations live in scheduler.h. The field types used here are the ones
  scheduler.c itself shows: \<^verbatim>\<open>run_top\<close> returns \<^verbatim>\<open>p.remaining_time\<close> as
  \<^verbatim>\<open>unsigned int\<close> and stores an \<^verbatim>\<open>unsigned int\<close> callback result in it,
  \<^verbatim>\<open>renice\<close> stores an \<^verbatim>\<open>unsigned int\<close> in \<^verbatim>\<open>niceness\<close>, and masks are
  \<^verbatim>\<open>uint16_t\<close>. An \<^verbatim>\<open>unsigned int\<close> is a 32-bit word, an \<^verbatim>\<open>unsigned long\<close> a
  64-bit word. Function pointers and \<^verbatim>\<open>void *\<close> contexts are opaque values that are
  only ever compared; they are natural numbers here.
\<close>

type_synonym addr = nat

record process_type =
  callback :: nat
  ctx :: nat
  remaining_time :: "32 word"
  niceness :: "32 word"
  cpu_mask :: "16 word"

text \<open>
  A node of the chain. A pointer is \<open>None\<close> for \<^verbatim>\<open>NULL\<close> and \<open>Some a\<close> for the
  address \<open>a\<close> of a node. The fields \<^verbatim>\<open>next\<close> and \<^verbatim>\<open>prev\<close> are called
  \<open>item_next\<close> and \<open>item_prev\<close>.
\<close>

record priority_queue_item =
  process :: process_type
  item_next :: "addr option"
  item_prev :: "addr option"

text \<open>
  Modelled from the spec: the declaration of \<^verbatim>\<open>struct priority_queue\<close> is in
  scheduler.h; its \<^verbatim>\<open>size\<close> field is the "count of nodes", a natural number.
  The fields \<^verbatim>\<open>top\<close>, \<^verbatim>\<open>bottom\<close> and \<^verbatim>\<open>size\<close> are called \<open>q_top\<close>,
  \<open>q_bottom\<close> and \<open>q_size\<close>.
\<close>

record priority_queue =
  q_top :: "addr option"
  q_bottom :: "addr option"
  q_size :: nat

text \<open>The store of nodes obtained from \<^verbatim>\<open>malloc\<close> and not yet freed.\<close>

type_synonym heap = "addr \<Rightarrow> priority_queue_item option"

text \<open>
  \<^verbatim>\<open>malloc\<close> is a parameter of every operation that allocates: given the current
  store it fails (\<open>None\<close>) or returns an address. \<open>allocator\<close> says that the address
  returned is never one of a live node.
\<close>

type_synonym allocation = "heap \<Rightarrow> addr option"

definition allocator :: "allocation \<Rightarrow> bool" where
  "allocator malloc = (\<forall>h a. malloc h = Some a \<longrightarrow> h a = None)"

datatype push_result = push_success | push_duplicate | push_inconsistent | push_error

section \<open>Affinity arithmetic and the comparator\<close>

text \<open>The loop of \<^verbatim>\<open>cpu_count\<close>, with the two variables \<^verbatim>\<open>mask\<close> (here \<open>msk\<close>) and \<^verbatim>\<open>count\<close>.\<close>

function cpu_count_loop :: "16 word \<Rightarrow> 16 word \<Rightarrow> 16 word" where
  "cpu_count_loop msk count =
     (if msk > 0
      then cpu_count_loop (drop_bit 1 msk) (if msk AND 1 \<noteq> 0 then count + 1 else count)
      else count)"
  by pat_completeness auto
termination
proof (relation "measure (\<lambda>(msk, count). unat msk)")
  show "wf (measure (\<lambda>(msk, count). unat msk))" by simp
next
  fix msk count :: "16 word"
  assume "0 < msk"
  then have "unat msk \<noteq> 0" by (simp add: unat_eq_0 word_neq_0_conv)
  then have "unat msk div 2 < unat msk" by simp
  then show "((drop_bit 1 msk, if msk AND 1 \<noteq> 0 then count + 1 else count), (msk, count))
      \<in> measure (\<lambda>(msk, count). unat msk)"
    by (simp add: drop_bit_eq_div unat_div)
qed

definition cpu_count :: "16 word \<Rightarrow> 16 word" where
  "cpu_count msk = cpu_count_loop msk 0"

text \<open>
  \<^verbatim>\<open>process_evaluation\<close>: the product is computed in \<^verbatim>\<open>unsigned int\<close> and only then
  stored in an \<^verbatim>\<open>unsigned long\<close>.
\<close>

definition process_evaluation :: "process_type \<Rightarrow> process_type \<Rightarrow> bool" where
  "process_evaluation push_process proc =
     (let push_process_priority = (ucast (niceness push_process * remaining_time push_process) :: 64 word);
          process_priority = (ucast (niceness proc * remaining_time proc) :: 64 word)
      in if push_process_priority = process_priority
         then (if cpu_count (cpu_mask push_process) < cpu_count (cpu_mask proc) then True else False)
         else push_process_priority < process_priority)"

section \<open>The ordered queue store\<close>

text \<open>
  Every operation takes the store of nodes and returns the new one. The result \<open>None\<close>
  means that the C execution has no result: an \<^verbatim>\<open>assert\<close> fails, a pointer that is
  \<^verbatim>\<open>NULL\<close> or not the address of a live node is dereferenced or freed, or a scan
  never reaches the end of the chain.
\<close>

definition create_item ::
  "allocation \<Rightarrow> heap \<Rightarrow> process_type \<Rightarrow> addr option \<Rightarrow> addr option \<Rightarrow> heap \<times> addr option" where
  "create_item malloc h proc nxt prv =
     (case malloc h of
        None \<Rightarrow> (h, None)
      | Some item \<Rightarrow> (h(item \<mapsto> \<lparr>process = proc, item_next = nxt, item_prev = prv\<rparr>), Some item))"

text \<open>The loop of \<^verbatim>\<open>clear_queue\<close>: read \<^verbatim>\<open>item->next\<close>, then free the node.\<close>

partial_function (option) clear_loop :: "heap \<Rightarrow> addr option \<Rightarrow> heap option" where
  "clear_loop h item =
     (case item of
        None \<Rightarrow> Some h
      | Some item_to_del \<Rightarrow>
          (case h item_to_del of
             None \<Rightarrow> None
           | Some it \<Rightarrow> clear_loop (h(item_to_del := None)) (item_next it)))"

definition clear_queue :: "heap \<Rightarrow> priority_queue \<Rightarrow> (heap \<times> priority_queue) option" where
  "clear_queue h queue =
     (case clear_loop h (q_top queue) of
        None \<Rightarrow> None
      | Some h' \<Rightarrow> Some (h', queue\<lparr>q_bottom := None, q_top := None, q_size := 0\<rparr>))"

text \<open>
  \<^verbatim>\<open>pop_item\<close>. The counter is decremented first; the three branches relink the
  neighbours and the node is freed at the end.
\<close>

definition pop_item :: "heap \<Rightarrow> priority_queue \<Rightarrow> addr \<Rightarrow> (heap \<times> priority_queue) option" where
  "pop_item h queue0 item =
     (let queue = queue0\<lparr>q_size := q_size queue0 - 1\<rparr> in
      if Some item = q_top queue then
        (case h item of
           None \<Rightarrow> None
         | Some t \<Rightarrow>
             (case item_next t of
                None \<Rightarrow> clear_queue h queue
              | Some n \<Rightarrow>
                  (case h n of
                     None \<Rightarrow> None
                   | Some nt \<Rightarrow>
                       (let h1 = h(n \<mapsto> nt\<lparr>item_prev := None\<rparr>) in
                        if h1 item = None then None
                        else Some (h1(item := None), queue\<lparr>q_top := Some n\<rparr>)))))
      else if Some item = q_bottom queue then
        (case h item of
           None \<Rightarrow> None
         | Some b \<Rightarrow>
             (case item_prev b of
                None \<Rightarrow> None
              | Some p \<Rightarrow>
                  (case h p of
                     None \<Rightarrow> None
                   | Some pt \<Rightarrow>
                       (let h1 = h(p \<mapsto> pt\<lparr>item_next := None\<rparr>) in
                        if h1 item = None then None
                        else Some (h1(item := None), queue\<lparr>q_bottom := Some p\<rparr>)))))
      else
        (case h item of
           None \<Rightarrow> None
         | Some it \<Rightarrow>
             (case item_next it of
                None \<Rightarrow> None
              | Some n \<Rightarrow>
                  (case h n of
                     None \<Rightarrow> None
                   | Some nt \<Rightarrow>
                       (let h1 = h(n \<mapsto> nt\<lparr>item_prev := item_prev it\<rparr>) in
                        case h1 item of
                          None \<Rightarrow> None
                        | Some it1 \<Rightarrow>
                            (case item_prev it1 of
                               None \<Rightarrow> None
                             | Some p \<Rightarrow>
                                 (case h1 p of
                                    None \<Rightarrow> None
                                  | Some pt \<Rightarrow>
                                      (let h2 = h1(p \<mapsto> pt\<lparr>item_next := item_next it1\<rparr>) in
                                       if h2 item = None then None
                                       else Some (h2(item := None), queue)))))))))"

definition create_queue :: priority_queue where
  "create_queue = \<lparr>q_top = None, q_bottom = None, q_size = 0\<rparr>"

text \<open>The loop of \<^verbatim>\<open>processes_are_valid\<close>.\<close>

partial_function (option) processes_are_valid_loop ::
  "heap \<Rightarrow> process_type \<Rightarrow> addr option \<Rightarrow> push_result option" where
  "processes_are_valid_loop h proc item =
     (case item of
        None \<Rightarrow> Some push_success
      | Some a \<Rightarrow>
          (case h a of
             None \<Rightarrow> None
           | Some it \<Rightarrow>
               if callback (process it) = callback proc \<and> ctx (process it) = ctx proc then
                 (if remaining_time (process it) = remaining_time proc \<and>
                     niceness (process it) = niceness proc \<and>
                     cpu_mask (process it) = cpu_mask proc
                  then Some push_duplicate
                  else Some push_inconsistent)
               else processes_are_valid_loop h proc (item_next it)))"

definition processes_are_valid :: "heap \<Rightarrow> priority_queue \<Rightarrow> process_type \<Rightarrow> push_result option" where
  "processes_are_valid h queue proc = processes_are_valid_loop h proc (q_top queue)"

text \<open>
  The body of the \<^verbatim>\<open>if (process_evaluation(...))\<close> of \<^verbatim>\<open>push_to_queue\<close>
  (lines 152 to 165): a new node is spliced in before \<open>item\<close>.
\<close>

definition insert_before ::
  "allocation \<Rightarrow> heap \<Rightarrow> priority_queue \<Rightarrow> process_type \<Rightarrow> addr \<Rightarrow>
   (heap \<times> priority_queue \<times> push_result) option" where
  "insert_before malloc h queue proc item =
     (case h item of
        None \<Rightarrow> None
      | Some it \<Rightarrow>
          (case create_item malloc h proc (Some item) (item_prev it) of
             (h1, None) \<Rightarrow> Some (h1, queue, push_error)
           | (h1, Some new_item) \<Rightarrow>
               if Some item = q_top queue then
                 (case h1 item of
                    None \<Rightarrow> None
                  | Some t \<Rightarrow>
                      Some (h1(item \<mapsto> t\<lparr>item_prev := Some new_item\<rparr>),
                            queue\<lparr>q_top := Some new_item, q_size := q_size queue + 1\<rparr>,
                            push_success))
               else
                 (case h1 item of
                    None \<Rightarrow> None
                  | Some it1 \<Rightarrow>
                      (case item_prev it1 of
                         None \<Rightarrow> None
                       | Some p \<Rightarrow>
                           (case h1 p of
                              None \<Rightarrow> None
                            | Some pt \<Rightarrow>
                                (let h2 = h1(p \<mapsto> pt\<lparr>item_next := Some new_item\<rparr>) in
                                 case h2 item of
                                   None \<Rightarrow> None
                                 | Some it2 \<Rightarrow>
                                     Some (h2(item \<mapsto> it2\<lparr>item_prev := Some new_item\<rparr>),
                                           queue\<lparr>q_size := q_size queue + 1\<rparr>,
                                           push_success)))))))"

text \<open>The end of \<^verbatim>\<open>push_to_queue\<close> (lines 169 to 179): a new node after the bottom.\<close>

definition append_bottom ::
  "allocation \<Rightarrow> heap \<Rightarrow> priority_queue \<Rightarrow> process_type \<Rightarrow>
   (heap \<times> priority_queue \<times> push_result) option" where
  "append_bottom malloc h queue proc =
     (case create_item malloc h proc None (q_bottom queue) of
        (h1, None) \<Rightarrow> Some (h1, queue, push_error)
      | (h1, Some new_item) \<Rightarrow>
          (case q_bottom queue of
             None \<Rightarrow> None
           | Some b \<Rightarrow>
               (case h1 b of
                  None \<Rightarrow> None
                | Some bt \<Rightarrow>
                    Some (h1(b \<mapsto> bt\<lparr>item_next := Some new_item\<rparr>),
                          queue\<lparr>q_bottom := Some new_item, q_size := q_size queue + 1\<rparr>,
                          push_success))))"

text \<open>The insertion loop of \<^verbatim>\<open>push_to_queue\<close> (lines 150 to 179).\<close>

partial_function (option) push_loop ::
  "allocation \<Rightarrow> heap \<Rightarrow> priority_queue \<Rightarrow> process_type \<Rightarrow> addr option \<Rightarrow>
   (heap \<times> priority_queue \<times> push_result) option" where
  "push_loop malloc h queue proc item =
     (case item of
        None \<Rightarrow> append_bottom malloc h queue proc
      | Some a \<Rightarrow>
          (case h a of
             None \<Rightarrow> None
           | Some it \<Rightarrow>
               if process_evaluation proc (process it)
               then insert_before malloc h queue proc a
               else push_loop malloc h queue proc (item_next it)))"

definition push_to_queue ::
  "allocation \<Rightarrow> heap \<Rightarrow> priority_queue \<Rightarrow> process_type \<Rightarrow>
   (heap \<times> priority_queue \<times> push_result) option" where
  "push_to_queue malloc h queue proc =
     (if \<not> (niceness proc \<ge> 10 \<and> niceness proc \<le> 49) then None
      else if q_top queue = None then
        (case create_item malloc h proc None None of
           (h1, None) \<Rightarrow> Some (h1, queue, push_error)
         | (h1, Some new_item) \<Rightarrow>
             Some (h1,
                   queue\<lparr>q_top := Some new_item, q_bottom := Some new_item,
                         q_size := q_size queue + 1\<rparr>,
                   push_success))
      else
        (case processes_are_valid h queue proc of
           None \<Rightarrow> None
         | Some valid_state \<Rightarrow>
             if valid_state \<noteq> push_success then Some (h, queue, valid_state)
             else push_loop malloc h queue proc (q_top queue)))"

text \<open>
  The body of the \<^verbatim>\<open>if\<close> in the loop of \<^verbatim>\<open>renice\<close> (lines 189 to 193), for the
  node \<open>item\<close> that matched; the result of the inner \<^verbatim>\<open>push_to_queue\<close> is not
  looked at.
\<close>

definition renice_item ::
  "allocation \<Rightarrow> heap \<Rightarrow> priority_queue \<Rightarrow> 32 word \<Rightarrow> addr \<Rightarrow> (heap \<times> priority_queue \<times> bool) option" where
  "renice_item malloc h queue nice item =
     (case h item of
        None \<Rightarrow> None
      | Some it \<Rightarrow>
          (let p = (process it)\<lparr>niceness := nice\<rparr>;
               h1 = h(item \<mapsto> it\<lparr>process := p\<rparr>)
           in case pop_item h1 queue item of
                None \<Rightarrow> None
              | Some (h2, queue2) \<Rightarrow>
                  (case push_to_queue malloc h2 queue2 p of
                     None \<Rightarrow> None
                   | Some (h3, queue3, r) \<Rightarrow> Some (h3, queue3, True))))"

partial_function (option) renice_loop ::
  "allocation \<Rightarrow> heap \<Rightarrow> priority_queue \<Rightarrow> nat \<Rightarrow> nat \<Rightarrow> 32 word \<Rightarrow> addr option \<Rightarrow>
   (heap \<times> priority_queue \<times> bool) option" where
  "renice_loop malloc h queue cb cx nice item =
     (case item of
        None \<Rightarrow> Some (h, queue, False)
      | Some a \<Rightarrow>
          (case h a of
             None \<Rightarrow> None
           | Some it \<Rightarrow>
               if callback (process it) = cb \<and> ctx (process it) = cx
               then renice_item malloc h queue nice a
               else renice_loop malloc h queue cb cx nice (item_next it)))"

definition renice ::
  "allocation \<Rightarrow> heap \<Rightarrow> priority_queue \<Rightarrow> nat \<Rightarrow> nat \<Rightarrow> 32 word \<Rightarrow>
   (heap \<times> priority_queue \<times> bool) option" where
  "renice malloc h queue cb cx nice =
     (if \<not> (nice \<ge> 10 \<and> nice \<le> 49) then None
      else renice_loop malloc h queue cb cx nice (q_top queue))"

section \<open>The affinity-aware selector\<close>

text \<open>
  \<^verbatim>\<open>get_top\<close> returns a pointer to the \<^verbatim>\<open>process\<close> field of a node; it is the
  address of that node here.
\<close>

partial_function (option) get_top_loop :: "heap \<Rightarrow> 16 word \<Rightarrow> addr option \<Rightarrow> addr option option" where
  "get_top_loop h cm item =
     (case item of
        None \<Rightarrow> Some None
      | Some a \<Rightarrow>
          (case h a of
             None \<Rightarrow> None
           | Some it \<Rightarrow>
               if cpu_mask (process it) AND cm \<noteq> 0 then Some (Some a)
               else get_top_loop h cm (item_next it)))"

definition get_top :: "heap \<Rightarrow> priority_queue \<Rightarrow> 16 word \<Rightarrow> addr option option" where
  "get_top h queue cm = get_top_loop h cm (q_top queue)"

text \<open>
  The \<^verbatim>\<open>out\<close> parameter of \<^verbatim>\<open>pop_top\<close> is \<^verbatim>\<open>NULL\<close>, or points to storage of the
  caller outside the nodes, or (as in \<^verbatim>\<open>run_top\<close>) to the \<^verbatim>\<open>process\<close> field of a
  node. \<open>write_out\<close> is the assignment \<^verbatim>\<open>*out = item->process\<close>; its second result
  is what the caller's storage holds afterwards (\<open>None\<close>: not written).
\<close>

datatype out_ptr = out_null | out_local | out_node addr

definition write_out :: "heap \<Rightarrow> out_ptr \<Rightarrow> process_type \<Rightarrow> (heap \<times> process_type option) option" where
  "write_out h out p =
     (case out of
        out_null \<Rightarrow> Some (h, None)
      | out_local \<Rightarrow> Some (h, Some p)
      | out_node b \<Rightarrow>
          (case h b of
             None \<Rightarrow> None
           | Some bt \<Rightarrow> Some (h(b \<mapsto> bt\<lparr>process := p\<rparr>), None)))"

text \<open>
  The body of the \<^verbatim>\<open>if\<close> in the loop of \<^verbatim>\<open>pop_top\<close> (lines 218 to 222), for the
  node \<open>item\<close> that matched.
\<close>

definition pop_top_item ::
  "heap \<Rightarrow> priority_queue \<Rightarrow> out_ptr \<Rightarrow> addr \<Rightarrow>
   (heap \<times> priority_queue \<times> bool \<times> process_type option) option" where
  "pop_top_item h queue out item =
     (case h item of
        None \<Rightarrow> None
      | Some it \<Rightarrow>
          (case write_out h out (process it) of
             None \<Rightarrow> None
           | Some (h1, written) \<Rightarrow>
               (case pop_item h1 queue item of
                  None \<Rightarrow> None
                | Some (h2, queue2) \<Rightarrow> Some (h2, queue2, True, written))))"

partial_function (option) pop_top_loop ::
  "heap \<Rightarrow> priority_queue \<Rightarrow> 16 word \<Rightarrow> out_ptr \<Rightarrow> addr option \<Rightarrow>
   (heap \<times> priority_queue \<times> bool \<times> process_type option) option" where
  "pop_top_loop h queue cm out item =
     (case item of
        None \<Rightarrow> Some (h, queue, False, None)
      | Some a \<Rightarrow>
          (case h a of
             None \<Rightarrow> None
           | Some it \<Rightarrow>
               if cpu_mask (process it) AND cm \<noteq> 0
               then pop_top_item h queue out a
               else pop_top_loop h queue cm out (item_next it)))"

definition pop_top ::
  "heap \<Rightarrow> priority_queue \<Rightarrow> 16 word \<Rightarrow> out_ptr \<Rightarrow>
   (heap \<times> priority_queue \<times> bool \<times> process_type option) option" where
  "pop_top h queue cm out = pop_top_loop h queue cm out (q_top queue)"

section \<open>Copying a queue\<close>

text \<open>
  One iteration of the loop of \<^verbatim>\<open>copy_queue\<close> (lines 237 to 251) for a source
  node holding \<open>proc\<close>, with the local \<^verbatim>\<open>new_queue\<close>. The second result is
  \<open>None\<close> when the allocation failed and the partial copy was cleared.
\<close>

definition copy_node ::
  "allocation \<Rightarrow> heap \<Rightarrow> priority_queue \<Rightarrow> process_type \<Rightarrow> (heap \<times> priority_queue option) option" where
  "copy_node malloc h new_queue proc =
     (case create_item malloc h proc None None of
        (h1, None) \<Rightarrow>
          (case clear_queue h1 new_queue of
             None \<Rightarrow> None
           | Some (h2, cleared) \<Rightarrow> Some (h2, None))
      | (h1, Some new_item) \<Rightarrow>
          (let nq1 = (if q_top new_queue = None then new_queue\<lparr>q_top := Some new_item\<rparr>
                      else new_queue) in
           case (case q_bottom nq1 of
                   None \<Rightarrow> Some h1
                 | Some b \<Rightarrow>
                     (case h1 new_item of
                        None \<Rightarrow> None
                      | Some nt \<Rightarrow>
                          (let h2 = h1(new_item \<mapsto> nt\<lparr>item_prev := Some b\<rparr>) in
                           case h2 b of
                             None \<Rightarrow> None
                           | Some bt \<Rightarrow> Some (h2(b \<mapsto> bt\<lparr>item_next := Some new_item\<rparr>))))) of
             None \<Rightarrow> None
           | Some h3 \<Rightarrow>
               (case h3 new_item of
                  None \<Rightarrow> None
                | Some nt3 \<Rightarrow>
                    Some (h3(new_item \<mapsto> nt3\<lparr>item_next := None\<rparr>),
                          Some (nq1\<lparr>q_bottom := Some new_item, q_size := q_size nq1 + 1\<rparr>)))))"

text \<open>The loop itself: \<^verbatim>\<open>item = item->next\<close> is read after the iteration.\<close>

partial_function (option) copy_loop ::
  "allocation \<Rightarrow> heap \<Rightarrow> addr option \<Rightarrow> priority_queue \<Rightarrow> (heap \<times> priority_queue option) option" where
  "copy_loop malloc h item new_queue =
     (case item of
        None \<Rightarrow> Some (h, Some new_queue)
      | Some a \<Rightarrow>
          (case h a of
             None \<Rightarrow> None
           | Some it \<Rightarrow>
               (case copy_node malloc h new_queue (process it) of
                  None \<Rightarrow> None
                | Some (h', None) \<Rightarrow> Some (h', None)
                | Some (h', Some new_queue') \<Rightarrow>
                    (case h' a of
                       None \<Rightarrow> None
                     | Some it' \<Rightarrow> copy_loop malloc h' (item_next it') new_queue'))))"

definition copy_queue ::
  "allocation \<Rightarrow> heap \<Rightarrow> priority_queue \<Rightarrow> priority_queue \<Rightarrow> (heap \<times> priority_queue \<times> bool) option" where
  "copy_queue malloc h dest source =
     (case copy_loop malloc h (q_top source) create_queue of
        None \<Rightarrow> None
      | Some (h', None) \<Rightarrow> Some (h', dest, False)
      | Some (h', Some new_queue) \<Rightarrow>
          Some (h',
                dest\<lparr>q_top := q_top new_queue, q_bottom := q_bottom new_queue,
                     q_size := q_size new_queue\<rparr>,
                True))"

section \<open>The execution driver\<close>

text \<open>
  \<open>call cb run_time cx\<close> is the value the callback \<open>cb\<close> returns when it is invoked
  with \<open>(run_time, cx)\<close>; a callback does not touch the queue (spec, section 6).
  Besides the store, the queue and the returned number, \<open>run_top\<close> returns the call it
  made: \<open>Some (cb, run_time, cx)\<close>, or \<open>None\<close> when no callback was invoked.
\<close>

definition run_top ::
  "allocation \<Rightarrow> (nat \<Rightarrow> 32 word \<Rightarrow> nat \<Rightarrow> 32 word) \<Rightarrow> heap \<Rightarrow> priority_queue \<Rightarrow> 16 word \<Rightarrow> 32 word \<Rightarrow>
   (heap \<times> priority_queue \<times> 32 word \<times> (nat \<times> 32 word \<times> nat) option) option" where
  "run_top malloc call h queue cm run_time =
     (if q_top queue = None then Some (h, queue, 0, None)
      else
        (case get_top h queue cm of
           None \<Rightarrow> None
         | Some None \<Rightarrow> Some (h, queue, 0, None)
         | Some (Some proc) \<Rightarrow>
             (case h proc of
                None \<Rightarrow> None
              | Some it \<Rightarrow>
                  (let invoked = (callback (process it), run_time, ctx (process it));
                       call_res = call (callback (process it)) run_time (ctx (process it))
                   in if call_res = 0 then
                        (case pop_top h queue cm (out_node proc) of
                           None \<Rightarrow> None
                         | Some (h1, queue1, found, written) \<Rightarrow> Some (h1, queue1, 0, Some invoked))
                      else
                        (let rt = (if remaining_time (process it) > run_time
                                   then remaining_time (process it) - run_time + call_res
                                   else call_res);
                             h1 = h(proc \<mapsto> it\<lparr>process := (process it)\<lparr>remaining_time := rt\<rparr>\<rparr>)
                         in case pop_top h1 queue cm out_local of
                              None \<Rightarrow> None
                            | Some (h2, queue2, found, written) \<Rightarrow>
                                (case written of
                                   None \<Rightarrow> None
                                 | Some p \<Rightarrow>
                                     (case push_to_queue malloc h2 queue2 p of
                                        None \<Rightarrow> None
                                      | Some (h3, queue3, r) \<Rightarrow>
                                          Some (h3, queue3, remaining_time p, Some invoked))))))))"

section \<open>Notions of the specification\<close>

text \<open>The number of set bits of a mask, as the specification words it.\<close>

definition set_bit_count :: "16 word \<Rightarrow> nat" where
  "set_bit_count msk = length (filter (bit msk) [0..<16])"

text \<open>
  The score of the specification, a product of two numbers, and the product that an
  \<^verbatim>\<open>unsigned int\<close> multiplication yields.
\<close>

definition score :: "process_type \<Rightarrow> nat" where
  "score p = unat (niceness p) * unat (remaining_time p)"

definition score32 :: "process_type \<Rightarrow> nat" where
  "score32 p = (unat (niceness p) * unat (remaining_time p)) mod 2 ^ 32"

text \<open>
  The comparator of the specification (section 4.2), on the scores as numbers:
  on equal scores the process eligible on fewer CPUs outranks, otherwise the process
  with the smaller score.
\<close>

definition outranks :: "process_type \<Rightarrow> process_type \<Rightarrow> bool" where
  "outranks a b =
     (if score a = score b then set_bit_count (cpu_mask a) < set_bit_count (cpu_mask b)
      else score a < score b)"

text \<open>The score of a process fits the 32 bits of an \<^verbatim>\<open>unsigned int\<close>.\<close>

definition no_wrap :: "process_type \<Rightarrow> bool" where
  "no_wrap p = (score p < 2 ^ 32)"

section \<open>The chain of a queue, as a list\<close>

text \<open>
  \<open>dseg h first pr xs nx lst\<close>: in the store \<open>h\<close> the nodes at the addresses of
  \<open>xs\<close>, holding the processes of \<open>xs\<close>, are linked in this order in both directions;
  \<open>first\<close> points to the first node, whose \<^verbatim>\<open>prev\<close> is \<open>pr\<close>, and \<open>lst\<close> to the
  last node, whose \<^verbatim>\<open>next\<close> is \<open>nx\<close>.
\<close>

fun dseg ::
  "heap \<Rightarrow> addr option \<Rightarrow> addr option \<Rightarrow> (addr \<times> process_type) list \<Rightarrow> addr option \<Rightarrow> addr option \<Rightarrow> bool" where
  "dseg h first pr [] nx lst = (first = nx \<and> lst = pr)"
| "dseg h first pr (x # xs) nx lst =
     (first = Some (fst x) \<and>
      (case h (fst x) of
         None \<Rightarrow> False
       | Some it \<Rightarrow> process it = snd x \<and> item_prev it = pr \<and> dseg h (item_next it) (Some (fst x)) xs nx lst))"

text \<open>
  \<open>queue_rep h queue xs\<close>: the queue is the chain \<open>xs\<close> from \<^verbatim>\<open>top\<close> to
  \<^verbatim>\<open>bottom\<close>, ended by \<^verbatim>\<open>NULL\<close> on both sides, and \<^verbatim>\<open>size\<close> is its length.
\<close>

definition queue_rep :: "heap \<Rightarrow> priority_queue \<Rightarrow> (addr \<times> process_type) list \<Rightarrow> bool" where
  "queue_rep h queue xs = (dseg h (q_top queue) None xs None (q_bottom queue) \<and> q_size queue = length xs)"

text \<open>No later entry outranks an earlier one under the comparator.\<close>

definition in_order :: "process_type list \<Rightarrow> bool" where
  "in_order ps = sorted_wrt (\<lambda>p p'. \<not> process_evaluation p' p) ps"

text \<open>No later entry outranks an earlier one under the comparator of the specification.\<close>

definition sorted_by_score :: "process_type list \<Rightarrow> bool" where
  "sorted_by_score ps = sorted_wrt (\<lambda>p p'. \<not> outranks p' p) ps"

text \<open>The identity of a process is its callback together with its context.\<close>

definition identity :: "process_type \<Rightarrow> nat \<times> nat" where
  "identity p = (callback p, ctx p)"

definition nice_ok :: "process_type \<Rightarrow> bool" where
  "nice_ok p = (10 \<le> niceness p \<and> niceness p \<le> 49)"

text \<open>
  The invariant of a queue: a well-linked chain in comparator order, no identity twice,
  every niceness in the range 10 to 49.
\<close>

definition queue_inv :: "heap \<Rightarrow> priority_queue \<Rightarrow> (addr \<times> process_type) list \<Rightarrow> bool" where
  "queue_inv h queue xs =
     (queue_rep h queue xs \<and> in_order (map snd xs) \<and> distinct (map (identity \<circ> snd) xs) \<and>
      list_all (nice_ok \<circ> snd) xs)"

text \<open>The place of a new entry: before the first entry that it outranks.\<close>

definition insert_entry ::
  "addr \<times> process_type \<Rightarrow> (addr \<times> process_type) list \<Rightarrow> (addr \<times> process_type) list" where
  "insert_entry x xs =
     takeWhile (\<lambda>y. \<not> process_evaluation (snd x) (snd y)) xs @ x #
     dropWhile (\<lambda>y. \<not> process_evaluation (snd x) (snd y)) xs"

text \<open>
  The sorted position of the specification (section 4.4): immediately before the first
  entry that the new one outranks by score, at the tail when there is none.
\<close>

definition insert_by_score ::
  "addr \<times> process_type \<Rightarrow> (addr \<times> process_type) list \<Rightarrow> (addr \<times> process_type) list" where
  "insert_by_score x xs =
     takeWhile (\<lambda>y. \<not> outranks (snd x) (snd y)) xs @ x #
     dropWhile (\<lambda>y. \<not> outranks (snd x) (snd y)) xs"

text \<open>The classification of the identity validator (specification, section 4.3).\<close>

definition classify :: "process_type list \<Rightarrow> process_type \<Rightarrow> push_result" where
  "classify ps p =
     (case find (\<lambda>p'. identity p' = identity p) ps of
        None \<Rightarrow> push_success
      | Some p' \<Rightarrow>
          if remaining_time p' = remaining_time p \<and> niceness p' = niceness p \<and> cpu_mask p' = cpu_mask p
          then push_duplicate else push_inconsistent)"

text \<open>
  What \<^verbatim>\<open>push_to_queue\<close> returns and the chain it leaves, for a queue with the chain
  \<open>xs\<close>, when \<^verbatim>\<open>malloc\<close> would return \<open>new\<close>.
\<close>

definition push_outcome :: "(addr \<times> process_type) list \<Rightarrow> addr option \<Rightarrow> process_type \<Rightarrow> push_result" where
  "push_outcome xs new proc =
     (if xs \<noteq> [] \<and> classify (map snd xs) proc \<noteq> push_success then classify (map snd xs) proc
      else if new = None then push_error
      else push_success)"

definition pushed ::
  "(addr \<times> process_type) list \<Rightarrow> addr option \<Rightarrow> process_type \<Rightarrow> (addr \<times> process_type) list" where
  "pushed xs new proc =
     (case new of
        None \<Rightarrow> xs
      | Some n \<Rightarrow>
          if xs \<noteq> [] \<and> classify (map snd xs) proc \<noteq> push_success then xs
          else insert_entry (n, proc) xs)"

section \<open>Reachable queue states\<close>

text \<open>
  The states a queue can be in, together with the store it lives in: the empty queue
  of \<^verbatim>\<open>create_queue\<close>, and every state a public operation returns from a reachable one.
  A caller passes \<^verbatim>\<open>NULL\<close> or storage of its own as the \<^verbatim>\<open>out\<close> parameter of
  \<^verbatim>\<open>pop_top\<close>. After \<^verbatim>\<open>copy_queue\<close> both the destination (on success) and the source
  are reachable.
\<close>

inductive reachable :: "heap \<Rightarrow> priority_queue \<Rightarrow> bool" where
  created: "reachable h create_queue"
| pushed_to: "reachable h q \<Longrightarrow> allocator malloc \<Longrightarrow> push_to_queue malloc h q p = Some (h', q', r) \<Longrightarrow>
     reachable h' q'"
| popped: "reachable h q \<Longrightarrow> out = out_null \<or> out = out_local \<Longrightarrow>
     pop_top h q cm out = Some (h', q', found, written) \<Longrightarrow> reachable h' q'"
| reniced: "reachable h q \<Longrightarrow> allocator malloc \<Longrightarrow> renice malloc h q cb cx nice = Some (h', q', found) \<Longrightarrow>
     reachable h' q'"
| cleared: "reachable h q \<Longrightarrow> clear_queue h q = Some (h', q') \<Longrightarrow> reachable h' q'"
| ran: "reachable h q \<Longrightarrow> allocator malloc \<Longrightarrow>
     run_top malloc call h q cm run_time = Some (h', q', left, invoked) \<Longrightarrow> reachable h' q'"
| copied: "reachable h source \<Longrightarrow> allocator malloc \<Longrightarrow>
     copy_queue malloc h dest source = Some (h', dest', True) \<Longrightarrow> reachable h' dest'"
| copied_from: "reachable h source \<Longrightarrow> allocator malloc \<Longrightarrow>
     copy_queue malloc h dest source = Some (h', dest', ok) \<Longrightarrow> reachable h' source"

text \<open>Mutations of a queue: a push, a pop into storage of the caller, a clear.\<close>

datatype mutation = Push process_type | Pop "16 word" | Clear

fun mutate :: "allocation \<Rightarrow> heap \<Rightarrow> priority_queue \<Rightarrow> mutation list \<Rightarrow> (heap \<times> priority_queue) option" where
  "mutate malloc h q [] = Some (h, q)"
| "mutate malloc h q (Push p # ms) =
     (case push_to_queue malloc h q p of
        None \<Rightarrow> None
      | Some (h', q', r) \<Rightarrow> mutate malloc h' q' ms)"
| "mutate malloc h q (Pop cm # ms) =
     (case pop_top h q cm out_local of
        None \<Rightarrow> None
      | Some (h', q', found, written) \<Rightarrow> mutate malloc h' q' ms)"
| "mutate malloc h q (Clear # ms) =
     (case clear_queue h q of
        None \<Rightarrow> None
      | Some (h', q') \<Rightarrow> mutate malloc h' q' ms)"

text \<open>The place of an identity in the queue order: the number of entries before it.\<close>

definition position :: "nat \<times> nat \<Rightarrow> process_type list \<Rightarrow> nat" where
  "position ident ps = length (takeWhile (\<lambda>p. identity p \<noteq> ident) ps)"

section \<open>Example states\<close>

text \<open>
  Two allocators: one that always fails, and one that returns the first address of a
  list that is free in the store (and fails when there is none).
\<close>

definition malloc_fails :: allocation where
  "malloc_fails h = None"

definition malloc_in :: "addr list \<Rightarrow> allocation" where
  "malloc_in candidates h = find (\<lambda>a. h a = None) candidates"

text \<open>A queue of one process (the process of scenario 5 of the specification).\<close>

definition proc_a :: process_type where
  "proc_a = \<lparr>callback = 1, ctx = 1, remaining_time = 8, niceness = 10, cpu_mask = 1\<rparr>"

definition store_a :: heap where
  "store_a = Map.empty(1 \<mapsto> \<lparr>process = proc_a, item_next = None, item_prev = None\<rparr>)"

definition queue_a :: priority_queue where
  "queue_a = \<lparr>q_top = Some 1, q_bottom = Some 1, q_size = 1\<rparr>"

text \<open>A queue of two processes: \<open>proc_b\<close> (score 40) before \<open>proc_a\<close> (score 80).\<close>

definition proc_b :: process_type where
  "proc_b = \<lparr>callback = 2, ctx = 2, remaining_time = 2, niceness = 20, cpu_mask = 2\<rparr>"

definition store_ab :: heap where
  "store_ab = Map.empty(2 \<mapsto> \<lparr>process = proc_b, item_next = Some 1, item_prev = None\<rparr>,
                        1 \<mapsto> \<lparr>process = proc_a, item_next = None, item_prev = Some 2\<rparr>)"

definition queue_ab :: priority_queue where
  "queue_ab = \<lparr>q_top = Some 2, q_bottom = Some 1, q_size = 2\<rparr>"

text \<open>A queue of two processes with nothing left to do, which tie under the comparator.\<close>

definition proc_c :: process_type where
  "proc_c = \<lparr>callback = 3, ctx = 3, remaining_time = 0, niceness = 20, cpu_mask = 1\<rparr>"

definition proc_d :: process_type where
  "proc_d = \<lparr>callback = 4, ctx = 4, remaining_time = 0, niceness = 20, cpu_mask = 1\<rparr>"

definition store_cd :: heap where
  "store_cd = Map.empty(3 \<mapsto> \<lparr>process = proc_c, item_next = Some 4, item_prev = None\<rparr>,
                        4 \<mapsto> \<lparr>process = proc_d, item_next = None, item_prev = Some 3\<rparr>)"

definition queue_cd :: priority_queue where
  "queue_cd = \<lparr>q_top = Some 3, q_bottom = Some 4, q_size = 2\<rparr>"

text \<open>
  Two processes of niceness 10: \<open>proc_long\<close> with 429496730 units left (score
  4294967300) and \<open>proc_short\<close> with 1 unit left (score 10), and the queue that
  pushing \<open>proc_short\<close> and then \<open>proc_long\<close> into the empty queue gives.
\<close>

definition proc_long :: process_type where
  "proc_long = \<lparr>callback = 5, ctx = 5, remaining_time = 429496730, niceness = 10, cpu_mask = 1\<rparr>"

definition proc_short :: process_type where
  "proc_short = \<lparr>callback = 6, ctx = 6, remaining_time = 1, niceness = 10, cpu_mask = 1\<rparr>"

definition store_short :: heap where
  "store_short = Map.empty(1 \<mapsto> \<lparr>process = proc_short, item_next = None, item_prev = None\<rparr>)"

definition queue_short :: priority_queue where
  "queue_short = \<lparr>q_top = Some 1, q_bottom = Some 1, q_size = 1\<rparr>"

definition store_long_short :: heap where
  "store_long_short =
     Map.empty(2 \<mapsto> \<lparr>process = proc_long, item_next = Some 1, item_prev = None\<rparr>,
               1 \<mapsto> \<lparr>process = proc_short, item_next = None, item_prev = Some 2\<rparr>)"

definition queue_long_short :: priority_queue where
  "queue_long_short = \<lparr>q_top = Some 2, q_bottom = Some 1, q_size = 2\<rparr>"

text \<open>
  Two queues in which \<open>proc_short\<close> (score 10) is first: before \<open>proc_b\<close> (score 40),
  and before a process of niceness 11 with 429496730 units left (score 4724464030).
\<close>

definition store_short_b :: heap where
  "store_short_b =
     Map.empty(1 \<mapsto> \<lparr>process = proc_short, item_next = Some 2, item_prev = None\<rparr>,
               2 \<mapsto> \<lparr>process = proc_b, item_next = None, item_prev = Some 1\<rparr>)"

definition store_short_long :: heap where
  "store_short_long =
     Map.empty(1 \<mapsto> \<lparr>process = proc_short, item_next = Some 2, item_prev = None\<rparr>,
               2 \<mapsto> \<lparr>process = proc_long\<lparr>niceness := 11\<rparr>, item_next = None, item_prev = Some 1\<rparr>)"

definition queue_short_first :: priority_queue where
  "queue_short_first = \<lparr>q_top = Some 1, q_bottom = Some 2, q_size = 2\<rparr>"


section \<open>The comparator\<close>

lemma set_bits_word16: "{n. bit (w :: 16 word) n} = set (filter (bit w) [0..<16])"
  by (auto dest: bit_imp_le_length)

lemma set_bit_count_card: "set_bit_count w = card {n. bit w n}"
  using distinct_card [of "filter (bit w) [0..<16]"]
  by (simp only: set_bit_count_def set_bits_word16 distinct_filter distinct_upt)

lemma finite_bits_word16: "finite {n. bit (w :: 16 word) n}"
  by (rule finite_subset [of _ "{..<16}"]) (auto dest: bit_imp_le_length)

lemma bits_step: "{n. bit (w :: 16 word) n} = (if bit w 0 then {0} else {}) \<union> Suc ` {n. bit (drop_bit 1 w) n}"
proof (rule set_eqI)
  fix n
  show "n \<in> {n. bit w n} \<longleftrightarrow> n \<in> (if bit w 0 then {0} else {}) \<union> Suc ` {n. bit (drop_bit 1 w) n}"
  proof (cases n)
    case 0
    then show ?thesis by auto
  next
    case (Suc k)
    then show ?thesis by (auto simp: bit_drop_bit_eq)
  qed
qed

lemma card_bits_step:
  "card {n. bit (w :: 16 word) n} = (if bit w 0 then 1 else 0) + card {n. bit (drop_bit 1 w) n}"
proof -
  have "card ((if bit w 0 then {0} else {}) \<union> Suc ` {n. bit (drop_bit 1 w) n})
      = card (if bit w 0 then {0::nat} else {}) + card (Suc ` {n. bit (drop_bit 1 w) n})"
    by (rule card_Un_disjoint) (auto simp: finite_bits_word16)
  also have "card (Suc ` {n. bit (drop_bit 1 w) n}) = card {n. bit (drop_bit 1 w) n}"
    by (rule card_image) simp
  finally show ?thesis using bits_step [of w] by simp
qed

lemma cpu_count_loop_card:
  "cpu_count_loop msk count = count + of_nat (card {n. bit msk n})"
proof (induction msk count rule: cpu_count_loop.induct)
  case (1 msk count)
  show ?case
  proof (cases "0 < msk")
    case True
    have odd: "msk AND 1 \<noteq> 0 \<longleftrightarrow> bit msk 0"
      by (simp add: and_one_eq bit_0 odd_iff_mod_2_eq_one)
    show ?thesis
      using True "1.IH" card_bits_step [of msk]
      by (subst cpu_count_loop.simps) (simp add: odd)
  next
    case False
    then have "msk = 0" using word_neq_0_conv [of msk] by blast
    then show ?thesis by (subst cpu_count_loop.simps) (simp add: bot_fun_def)
  qed
qed

lemma set_bit_count_le: "set_bit_count w \<le> 16"
  unfolding set_bit_count_def
  using length_filter_le [of "bit w" "[0..<16]"] by simp

lemma unat_cpu_count: "unat (cpu_count msk) = set_bit_count msk"
proof -
  have eq: "cpu_count msk = of_nat (set_bit_count msk)"
    unfolding cpu_count_def cpu_count_loop_card set_bit_count_card by simp
  have "set_bit_count msk < 2 ^ LENGTH(16)"
    using set_bit_count_le [of msk] by simp
  then have "unat (of_nat (set_bit_count msk) :: 16 word) = set_bit_count msk"
    by (simp only: unat_of_nat mod_less)
  then show ?thesis
    by (simp only: eq)
qed

lemma cpu_count_less: "cpu_count a < cpu_count b \<longleftrightarrow> set_bit_count a < set_bit_count b"
  by (simp add: word_less_nat_alt unat_cpu_count)

lemma unat_ucast_32_64: "unat (ucast (w :: 32 word) :: 64 word) = unat w"
proof -
  have "unat w < 2 ^ 64"
    using unsigned_less [of w, where ?'a = nat] by simp
  then show ?thesis
    by (simp add: unsigned_ucast_eq take_bit_nat_eq_self)
qed

lemma ucast_prod: "unat (ucast (niceness p * remaining_time p) :: 64 word) = score32 p"
  by (simp add: score32_def unat_ucast_32_64 unat_word_ariths)

lemma process_evaluation_score32:
  "process_evaluation a b \<longleftrightarrow>
     score32 a < score32 b \<or> (score32 a = score32 b \<and> set_bit_count (cpu_mask a) < set_bit_count (cpu_mask b))"
  unfolding process_evaluation_def Let_def
  by (auto simp: cpu_count_less word_less_nat_alt [where ?'a = 64] ucast_prod word_unat_eq_iff [where ?'a = 64])

lemma process_evaluation_score:
  assumes "score a < 2 ^ 32" "score b < 2 ^ 32"
  shows "process_evaluation a b \<longleftrightarrow>
     score a < score b \<or> (score a = score b \<and> set_bit_count (cpu_mask a) < set_bit_count (cpu_mask b))"
  using assms unfolding process_evaluation_score32 by (simp add: score32_def score_def)

text \<open>
  Claim C2: the comparator returns true exactly when \<open>score a < score b\<close>, or the scores
  are equal and \<open>a\<close> has fewer set bits in its mask, where the score is the product
  \<open>niceness * remaining_time\<close>. The code multiplies in \<^verbatim>\<open>unsigned int\<close>, so the
  product is taken modulo \<open>2 ^ 32\<close> before it reaches the \<^verbatim>\<open>unsigned long\<close>
  variable: with niceness 10 on both sides, a process with 429496730 units left (score
  4294967300, which wraps to 4) outranks a process with 1 unit left (score 10).
\<close>

theorem process_evaluation_wraps:
  "process_evaluation
     \<lparr>callback = 1, ctx = 1, remaining_time = 429496730, niceness = 10, cpu_mask = 1\<rparr>
     \<lparr>callback = 2, ctx = 2, remaining_time = 1, niceness = 10, cpu_mask = 1\<rparr>
   \<and> score \<lparr>callback = 2, ctx = 2, remaining_time = 1, niceness = 10, cpu_mask = 1\<rparr>
     < score \<lparr>callback = 1, ctx = 1, remaining_time = 429496730, niceness = 10, cpu_mask = 1\<rparr>"
  by (simp add: process_evaluation_def score_def)

section \<open>Chains in the store\<close>

lemma dseg_append:
  "dseg h first pr (xs @ ys) nx lst \<longleftrightarrow> (\<exists>m l. dseg h first pr xs m l \<and> dseg h m l ys nx lst)"
  by (induction xs arbitrary: first pr) (auto split: option.splits)

lemma dseg_upd_other:
  "a \<notin> fst ` set xs \<Longrightarrow> dseg (h(a := v)) first pr xs nx lst = dseg h first pr xs nx lst"
  by (induction xs arbitrary: first pr) (auto split: option.splits)

lemma dseg_unique:
  "dseg h first pr xs None lst \<Longrightarrow> dseg h first pr' ys None lst' \<Longrightarrow> xs = ys"
proof (induction xs arbitrary: first pr pr' ys)
  case Nil
  then show ?case by (cases ys) auto
next
  case (Cons x xs)
  then show ?case
    by (cases ys) (auto split: option.splits simp: prod_eq_iff)
qed

lemma dseg_head_fresh:
  assumes "h a = Some it" "dseg h (item_next it) pr xs None lst"
  shows "a \<notin> fst ` set xs"
proof
  assume "a \<in> fst ` set xs"
  then obtain x where "(a, x) \<in> set xs" by auto
  then obtain ys zs where xs: "xs = ys @ (a, x) # zs"
    by (auto simp: in_set_conv_decomp)
  with assms(2) obtain m l where "dseg h m l ((a, x) # zs) None lst"
    by (auto simp: dseg_append)
  with assms(1) have "dseg h (item_next it) (Some a) zs None lst"
    by (auto split: option.splits)
  with assms(2) have "xs = zs" by (rule dseg_unique)
  with xs show False by simp
qed

lemma dseg_distinct:
  "dseg h first pr xs None lst \<Longrightarrow> distinct (map fst xs)"
proof (induction xs arbitrary: first pr)
  case Nil
  then show ?case by simp
next
  case (Cons x xs)
  from Cons.prems obtain it where it: "h (fst x) = Some it"
    and rest: "dseg h (item_next it) (Some (fst x)) xs None lst"
    by (auto split: option.splits)
  from it rest have "fst x \<notin> fst ` set xs" by (rule dseg_head_fresh)
  moreover from rest have "distinct (map fst xs)" by (rule Cons.IH)
  ultimately show ?case by simp
qed

lemma dseg_lookup:
  "dseg h first pr xs nx lst \<Longrightarrow> (a, p) \<in> set xs \<Longrightarrow> \<exists>it. h a = Some it \<and> process it = p"
  by (induction xs arbitrary: first pr) (auto split: option.splits)

lemma dseg_first:
  "dseg h first pr xs nx lst \<Longrightarrow> first = (case xs of [] \<Rightarrow> nx | x # _ \<Rightarrow> Some (fst x))"
  by (cases xs) auto

lemma dseg_last:
  "dseg h first pr xs nx lst \<Longrightarrow> lst = (if xs = [] then pr else Some (fst (last xs)))"
  by (induction xs arbitrary: first pr) (auto split: option.splits)

lemma dseg_frame:
  "dseg h first pr xs nx lst \<Longrightarrow> (\<forall>a \<in> fst ` set xs. h' a = h a) \<Longrightarrow> dseg h' first pr xs nx lst"
  by (induction xs arbitrary: first pr) (auto split: option.splits)


lemma get_top_loop_dseg:
  "dseg h item pr xs None lst \<Longrightarrow>
   get_top_loop h cm item = Some (map_option fst (find (\<lambda>x. cpu_mask (snd x) AND cm \<noteq> 0) xs))"
proof (induction xs arbitrary: item pr)
  case Nil
  then show ?case by (subst get_top_loop.simps) simp
next
  case (Cons x xs)
  then show ?case
    by (subst get_top_loop.simps) (auto split: option.splits)
qed

lemma processes_are_valid_loop_dseg:
  "dseg h item pr xs None lst \<Longrightarrow>
   processes_are_valid_loop h proc item = Some (classify (map snd xs) proc)"
proof (induction xs arbitrary: item pr)
  case Nil
  then show ?case by (subst processes_are_valid_loop.simps) (simp add: classify_def)
next
  case (Cons x xs)
  from Cons.prems obtain it where it: "item = Some (fst x)" "h (fst x) = Some it" "process it = snd x"
    and rest: "dseg h (item_next it) (Some (fst x)) xs None lst"
    by (auto split: option.splits)
  have step: "processes_are_valid_loop h proc item =
     (if identity (snd x) = identity proc
      then (if remaining_time (snd x) = remaining_time proc \<and> niceness (snd x) = niceness proc \<and>
               cpu_mask (snd x) = cpu_mask proc
            then Some push_duplicate else Some push_inconsistent)
      else processes_are_valid_loop h proc (item_next it))"
    by (subst processes_are_valid_loop.simps) (simp add: it identity_def)
  show ?case
    by (simp add: step classify_def Cons.IH [OF rest])
qed

lemma push_loop_dseg:
  "dseg h item pr xs None lst \<Longrightarrow>
   push_loop malloc h queue proc item =
     (case find (\<lambda>x. process_evaluation proc (snd x)) xs of
        None \<Rightarrow> append_bottom malloc h queue proc
      | Some x \<Rightarrow> insert_before malloc h queue proc (fst x))"
proof (induction xs arbitrary: item pr)
  case Nil
  then show ?case by (subst push_loop.simps) simp
next
  case (Cons x xs)
  then show ?case
    by (subst push_loop.simps) (auto split: option.splits)
qed

lemma renice_loop_dseg:
  "dseg h item pr xs None lst \<Longrightarrow>
   renice_loop malloc h queue cb cx nice item =
     (case find (\<lambda>x. identity (snd x) = (cb, cx)) xs of
        None \<Rightarrow> Some (h, queue, False)
      | Some x \<Rightarrow> renice_item malloc h queue nice (fst x))"
proof (induction xs arbitrary: item pr)
  case Nil
  then show ?case by (subst renice_loop.simps) simp
next
  case (Cons x xs)
  then show ?case
    by (subst renice_loop.simps) (auto split: option.splits simp: identity_def)
qed

lemma pop_top_loop_dseg:
  "dseg h item pr xs None lst \<Longrightarrow>
   pop_top_loop h queue cm out item =
     (case find (\<lambda>x. cpu_mask (snd x) AND cm \<noteq> 0) xs of
        None \<Rightarrow> Some (h, queue, False, None)
      | Some x \<Rightarrow> pop_top_item h queue out (fst x))"
proof (induction xs arbitrary: item pr)
  case Nil
  then show ?case by (subst pop_top_loop.simps) simp
next
  case (Cons x xs)
  then show ?case
    by (subst pop_top_loop.simps) (auto split: option.splits)
qed

lemma clear_loop_dseg:
  "dseg h item pr xs None lst \<Longrightarrow>
   clear_loop h item = Some (\<lambda>a. if a \<in> fst ` set xs then None else h a)"
proof (induction xs arbitrary: h item pr)
  case Nil
  then show ?case by (subst clear_loop.simps) simp
next
  case (Cons x xs)
  from Cons.prems obtain it where it: "h (fst x) = Some it" "item = Some (fst x)"
    and rest: "dseg h (item_next it) (Some (fst x)) xs None lst"
    by (auto split: option.splits)
  from it(1) rest have fresh: "fst x \<notin> fst ` set xs" by (rule dseg_head_fresh)
  then have "dseg (h(fst x := None)) (item_next it) (Some (fst x)) xs None lst"
    using rest by (simp add: dseg_upd_other)
  then have "clear_loop (h(fst x := None)) (item_next it) =
     Some (\<lambda>a. if a \<in> fst ` set xs then None else (h(fst x := None)) a)"
    by (rule Cons.IH)
  then show ?case using it
    by (subst clear_loop.simps) (auto simp: fun_eq_iff)
qed


lemma dseg_snoc:
  "dseg h first pr (xs @ [x]) nx lst \<longleftrightarrow>
     (\<exists>l it. dseg h first pr xs (Some (fst x)) l \<and> h (fst x) = Some it \<and> process it = snd x \<and>
        item_prev it = l \<and> item_next it = nx \<and> lst = Some (fst x))"
  by (auto simp: dseg_append split: option.splits)

lemma pop_item_rep:
  assumes rep: "queue_rep h q (xs @ (a, p) # ys)"
  shows "\<exists>h' q'. pop_item h q a = Some (h', q') \<and> queue_rep h' q' (xs @ ys) \<and> h' a = None \<and>
           (\<forall>b. b \<noteq> a \<longrightarrow> b \<notin> fst ` set xs \<longrightarrow> b \<notin> fst ` set ys \<longrightarrow> h' b = h b)"
proof -
  from rep have seg: "dseg h (q_top q) None (xs @ (a, p) # ys) None (q_bottom q)"
    and sz: "q_size q = Suc (length xs + length ys)"
    by (simp_all add: queue_rep_def)
  from seg have "distinct (map fst (xs @ (a, p) # ys))" by (rule dseg_distinct)
  then have a_xs: "a \<notin> fst ` set xs" and a_ys: "a \<notin> fst ` set ys"
    and d_xs: "distinct (map fst xs)" and d_ys: "distinct (map fst ys)"
    and disj: "fst ` set xs \<inter> fst ` set ys = {}"
    by auto
  from seg obtain m l where pre: "dseg h (q_top q) None xs m l"
    and suf: "dseg h m l ((a, p) # ys) None (q_bottom q)"
    by (auto simp: dseg_append)
  from suf obtain it where m: "m = Some a" and it: "h a = Some it" "process it = p" "item_prev it = l"
    and tl: "dseg h (item_next it) (Some a) ys None (q_bottom q)"
    by (auto split: option.splits)
  show ?thesis
  proof (cases xs rule: rev_cases)
    case Nil
    with pre m have top: "q_top q = Some a" and l: "l = None" by simp_all
    show ?thesis
    proof (cases ys)
      case ysNil: Nil
      with tl have nx: "item_next it = None" and bot: "q_bottom q = Some a" by simp_all
      have "dseg h (Some a) None [(a, p)] None (Some a)"
        using it l nx by simp
      then have "clear_loop h (Some a) = Some (\<lambda>b. if b \<in> fst ` set [(a, p)] then None else h b)"
        by (rule clear_loop_dseg)
      then have "pop_item h q a = Some (\<lambda>b. if b = a then None else h b,
          q\<lparr>q_size := q_size q - 1, q_bottom := None, q_top := None, q_size := 0\<rparr>)"
        using top it nx by (simp add: pop_item_def clear_queue_def)
      then show ?thesis using Nil ysNil
        by (simp add: queue_rep_def)
    next
      case (Cons y ys')
      with tl obtain yt where nx: "item_next it = Some (fst y)" and yt: "h (fst y) = Some yt"
        "process yt = snd y" "item_prev yt = Some a"
        and tl': "dseg h (item_next yt) (Some (fst y)) ys' None (q_bottom q)"
        by (auto split: option.splits)
      from a_ys Cons have ne: "fst y \<noteq> a" by auto
      from d_ys Cons have y_ys': "fst y \<notin> fst ` set ys'" by auto
      let ?h' = "(h(fst y \<mapsto> yt\<lparr>item_prev := None\<rparr>))(a := None)"
      have res: "pop_item h q a = Some (?h', q\<lparr>q_size := q_size q - 1, q_top := Some (fst y)\<rparr>)"
        using top it nx yt ne by (simp add: pop_item_def Let_def)
      have "dseg ?h' (item_next yt) (Some (fst y)) ys' None (q_bottom q)"
        using tl' a_ys y_ys' Cons by (simp add: dseg_upd_other)
      then have "queue_rep ?h' (q\<lparr>q_size := q_size q - 1, q_top := Some (fst y)\<rparr>) (xs @ ys)"
        using Nil Cons yt ne sz by (simp add: queue_rep_def)
      with res show ?thesis using Nil Cons by auto
    qed
  next
    case (snoc xs' c)
    with pre m obtain l' ct where pre': "dseg h (q_top q) None xs' (Some (fst c)) l'"
      and ct: "h (fst c) = Some ct" "process ct = snd c" "item_prev ct = l'" "item_next ct = Some a"
      and l: "l = Some (fst c)"
      by (auto simp: dseg_snoc)
    from a_xs snoc have ca: "fst c \<noteq> a" by auto
    from d_xs snoc have c_xs': "fst c \<notin> fst ` set xs'" by auto
    have top: "q_top q \<noteq> Some a"
    proof (cases xs)
      case Nil
      with snoc show ?thesis by simp
    next
      case (Cons x0 xs0)
      with pre have "q_top q = Some (fst x0)" by simp
      with a_xs Cons show ?thesis by auto
    qed
    show ?thesis
    proof (cases ys)
      case ysNil: Nil
      with tl have nx: "item_next it = None" and bot: "q_bottom q = Some a" by simp_all
      let ?h' = "(h(fst c \<mapsto> ct\<lparr>item_next := None\<rparr>))(a := None)"
      have res: "pop_item h q a = Some (?h', q\<lparr>q_size := q_size q - 1, q_bottom := Some (fst c)\<rparr>)"
        using top bot it l ct ca by (simp add: pop_item_def Let_def)
      have "dseg ?h' (q_top q) None xs' (Some (fst c)) l'"
        using pre' a_xs c_xs' snoc by (simp add: dseg_upd_other)
      then have "queue_rep ?h' (q\<lparr>q_size := q_size q - 1, q_bottom := Some (fst c)\<rparr>) (xs @ ys)"
        using snoc ysNil ct ca sz by (simp add: queue_rep_def dseg_snoc)
      with res show ?thesis using snoc ysNil by auto
    next
      case (Cons y ys')
      with tl obtain yt where nx: "item_next it = Some (fst y)" and yt: "h (fst y) = Some yt"
        "process yt = snd y" "item_prev yt = Some a"
        and tl': "dseg h (item_next yt) (Some (fst y)) ys' None (q_bottom q)"
        by (auto split: option.splits)
      from a_ys Cons have ne: "fst y \<noteq> a" by auto
      from d_ys Cons have y_ys': "fst y \<notin> fst ` set ys'" by auto
      from disj snoc Cons have cy: "fst c \<noteq> fst y" and c_ys': "fst c \<notin> fst ` set ys'"
        and y_xs': "fst y \<notin> fst ` set xs'"
        by auto
      have "q_bottom q = Some (fst (last ys))"
        using dseg_last [OF tl] Cons by simp
      moreover have "last ys \<in> set ys"
        using Cons by simp
      ultimately have bot: "q_bottom q \<noteq> Some a"
        using a_ys by auto
      let ?h' = "(h(fst y \<mapsto> yt\<lparr>item_prev := Some (fst c)\<rparr>, fst c \<mapsto> ct\<lparr>item_next := Some (fst y)\<rparr>))(a := None)"
      have res: "pop_item h q a = Some (?h', q\<lparr>q_size := q_size q - 1\<rparr>)"
        using top bot it l ct ca nx yt ne cy by (simp add: pop_item_def Let_def)
      have 1: "dseg ?h' (q_top q) None xs' (Some (fst c)) l'"
        using pre' a_xs c_xs' y_xs' snoc by (simp add: dseg_upd_other)
      have 2: "dseg ?h' (item_next yt) (Some (fst y)) ys' None (q_bottom q)"
        using tl' a_ys c_ys' y_ys' Cons by (simp add: dseg_upd_other)
      have "queue_rep ?h' (q\<lparr>q_size := q_size q - 1\<rparr>) (xs @ ys)"
        using 1 2 snoc Cons ct yt ca ne cy sz by (auto simp: queue_rep_def dseg_append)
      with res show ?thesis using snoc Cons by auto
    qed
  qed
qed

section \<open>Insertion\<close>

lemma dseg_fresh:
  "dseg h first pr xs nx lst \<Longrightarrow> h n = None \<Longrightarrow> n \<notin> fst ` set xs"
  by (auto dest: dseg_lookup)

lemma insert_before_fail:
  "malloc h = None \<Longrightarrow> h a = Some it \<Longrightarrow> insert_before malloc h q proc a = Some (h, q, push_error)"
  by (simp add: insert_before_def create_item_def)

lemma insert_before_rep:
  assumes rep: "queue_rep h q (xs @ (a, p) # ys)" and al: "malloc h = Some n" and fresh: "h n = None"
  shows "\<exists>h' q'. insert_before malloc h q proc a = Some (h', q', push_success) \<and>
           queue_rep h' q' (xs @ (n, proc) # (a, p) # ys) \<and>
           (\<forall>b. b \<noteq> n \<longrightarrow> b \<noteq> a \<longrightarrow> b \<notin> fst ` set xs \<longrightarrow> b \<notin> fst ` set ys \<longrightarrow> h' b = h b)"
proof -
  from rep have seg: "dseg h (q_top q) None (xs @ (a, p) # ys) None (q_bottom q)"
    and sz: "q_size q = Suc (length xs + length ys)"
    by (simp_all add: queue_rep_def)
  from seg have "distinct (map fst (xs @ (a, p) # ys))" by (rule dseg_distinct)
  then have a_xs: "a \<notin> fst ` set xs" and a_ys: "a \<notin> fst ` set ys"
    and d_xs: "distinct (map fst xs)"
    by auto
  from seg fresh have "n \<notin> fst ` set (xs @ (a, p) # ys)" by (rule dseg_fresh)
  then have n_xs: "n \<notin> fst ` set xs" and n_ys: "n \<notin> fst ` set ys" and na: "n \<noteq> a"
    by auto
  from seg obtain m l where pre: "dseg h (q_top q) None xs m l"
    and suf: "dseg h m l ((a, p) # ys) None (q_bottom q)"
    by (auto simp: dseg_append)
  from suf obtain it where m: "m = Some a" and it: "h a = Some it" "process it = p" "item_prev it = l"
    and tl: "dseg h (item_next it) (Some a) ys None (q_bottom q)"
    by (auto split: option.splits)
  let ?new = "\<lparr>process = proc, item_next = Some a, item_prev = l\<rparr>"
  show ?thesis
  proof (cases xs rule: rev_cases)
    case Nil
    with pre m have top: "q_top q = Some a" and l: "l = None" by simp_all
    let ?h' = "h(n \<mapsto> ?new, a \<mapsto> it\<lparr>item_prev := Some n\<rparr>)"
    have res: "insert_before malloc h q proc a =
        Some (?h', q\<lparr>q_top := Some n, q_size := q_size q + 1\<rparr>, push_success)"
      using top it al na by (simp add: insert_before_def create_item_def)
    have "dseg ?h' (item_next it) (Some a) ys None (q_bottom q)"
      using tl a_ys n_ys by (simp add: dseg_upd_other)
    then have "queue_rep ?h' (q\<lparr>q_top := Some n, q_size := q_size q + 1\<rparr>) (xs @ (n, proc) # (a, p) # ys)"
      using Nil it na l sz by (simp add: queue_rep_def)
    with res show ?thesis using Nil by auto
  next
    case (snoc xs' c)
    with pre m obtain l' ct where pre': "dseg h (q_top q) None xs' (Some (fst c)) l'"
      and ct: "h (fst c) = Some ct" "process ct = snd c" "item_prev ct = l'" "item_next ct = Some a"
      and l: "l = Some (fst c)"
      by (auto simp: dseg_snoc)
    from a_xs snoc have ca: "fst c \<noteq> a" by auto
    from n_xs snoc have cn: "fst c \<noteq> n" and n_xs': "n \<notin> fst ` set xs'" by auto
    from d_xs snoc have c_xs': "fst c \<notin> fst ` set xs'" by auto
    from a_xs snoc have a_xs': "a \<notin> fst ` set xs'" by auto
    have top: "q_top q \<noteq> Some a"
    proof (cases xs)
      case Nil
      with snoc show ?thesis by simp
    next
      case (Cons x0 xs0)
      with pre have "q_top q = Some (fst x0)" by simp
      with a_xs Cons show ?thesis by auto
    qed
    let ?h' = "h(n \<mapsto> ?new, fst c \<mapsto> ct\<lparr>item_next := Some n\<rparr>, a \<mapsto> it\<lparr>item_prev := Some n\<rparr>)"
    have res: "insert_before malloc h q proc a =
        Some (?h', q\<lparr>q_size := q_size q + 1\<rparr>, push_success)"
      using top it al na l ct ca cn by (simp add: insert_before_def create_item_def Let_def)
    have 1: "dseg ?h' (q_top q) None xs' (Some (fst c)) l'"
      using pre' a_xs' c_xs' n_xs' by (simp add: dseg_upd_other)
    have 2: "dseg ?h' (item_next it) (Some a) ys None (q_bottom q)"
      using tl a_ys n_ys snoc \<open>distinct (map fst (xs @ (a, p) # ys))\<close> by (simp add: dseg_upd_other)
    have "queue_rep ?h' (q\<lparr>q_size := q_size q + 1\<rparr>) (xs @ (n, proc) # (a, p) # ys)"
      using 1 2 snoc it ct na ca cn l sz by (auto simp: queue_rep_def dseg_append)
    with res show ?thesis using snoc by auto
  qed
qed

lemma append_bottom_fail:
  "malloc h = None \<Longrightarrow> append_bottom malloc h q proc = Some (h, q, push_error)"
  by (simp add: append_bottom_def create_item_def)

lemma append_bottom_rep:
  assumes rep: "queue_rep h q xs" and ne: "xs \<noteq> []" and al: "malloc h = Some n" and fresh: "h n = None"
  shows "\<exists>h' q'. append_bottom malloc h q proc = Some (h', q', push_success) \<and>
           queue_rep h' q' (xs @ [(n, proc)]) \<and>
           (\<forall>b. b \<noteq> n \<longrightarrow> b \<notin> fst ` set xs \<longrightarrow> h' b = h b)"
proof -
  from rep have seg: "dseg h (q_top q) None xs None (q_bottom q)"
    and sz: "q_size q = length xs"
    by (simp_all add: queue_rep_def)
  from seg have d_xs: "distinct (map fst xs)" by (rule dseg_distinct)
  from seg fresh have n_xs: "n \<notin> fst ` set xs" by (rule dseg_fresh)
  from ne obtain xs' c where snoc: "xs = xs' @ [c]" by (cases xs rule: rev_cases) auto
  with seg obtain l' ct where pre': "dseg h (q_top q) None xs' (Some (fst c)) l'"
    and ct: "h (fst c) = Some ct" "process ct = snd c" "item_prev ct = l'" "item_next ct = None"
    and bot: "q_bottom q = Some (fst c)"
    by (auto simp: dseg_snoc)
  from n_xs snoc have cn: "fst c \<noteq> n" and n_xs': "n \<notin> fst ` set xs'" by auto
  from d_xs snoc have c_xs': "fst c \<notin> fst ` set xs'" by auto
  let ?h' = "h(n \<mapsto> \<lparr>process = proc, item_next = None, item_prev = Some (fst c)\<rparr>,
               fst c \<mapsto> ct\<lparr>item_next := Some n\<rparr>)"
  have res: "append_bottom malloc h q proc =
      Some (?h', q\<lparr>q_bottom := Some n, q_size := q_size q + 1\<rparr>, push_success)"
    using al bot ct cn by (simp add: append_bottom_def create_item_def)
  have "dseg ?h' (q_top q) None xs' (Some (fst c)) l'"
    using pre' c_xs' n_xs' by (simp add: dseg_upd_other)
  then have "queue_rep ?h' (q\<lparr>q_bottom := Some n, q_size := q_size q + 1\<rparr>) (xs @ [(n, proc)])"
    using snoc ct cn sz by (auto simp: queue_rep_def dseg_append)
  with res show ?thesis using snoc by auto
qed

lemma find_None_split:
  "find P xs = None \<Longrightarrow> takeWhile (\<lambda>z. \<not> P z) xs = xs \<and> dropWhile (\<lambda>z. \<not> P z) xs = []"
  by (induction xs) (auto split: if_splits)

lemma find_Some_split:
  "find P xs = Some y \<Longrightarrow>
   \<exists>pre post. xs = pre @ y # post \<and> takeWhile (\<lambda>z. \<not> P z) xs = pre \<and>
     dropWhile (\<lambda>z. \<not> P z) xs = y # post \<and> P y \<and> (\<forall>z \<in> set pre. \<not> P z)"
proof (induction xs)
  case Nil
  then show ?case by simp
next
  case (Cons x xs)
  show ?case
  proof (cases "P x")
    case True
    with Cons.prems show ?thesis by (intro exI [of _ "[]"] exI [of _ xs]) simp
  next
    case False
    with Cons.prems have "find P xs = Some y" by simp
    from Cons.IH [OF this] obtain pre post where
      "xs = pre @ y # post" "takeWhile (\<lambda>z. \<not> P z) xs = pre"
      "dropWhile (\<lambda>z. \<not> P z) xs = y # post" "P y" "\<forall>z \<in> set pre. \<not> P z"
      by blast
    with False show ?thesis
      by (intro exI [of _ "x # pre"] exI [of _ post]) simp
  qed
qed

lemma push_to_queue_rep:
  assumes rep: "queue_rep h q xs" and al: "allocator malloc" and nice: "nice_ok proc"
  shows "\<exists>h' q'. push_to_queue malloc h q proc = Some (h', q', push_outcome xs (malloc h) proc) \<and>
     queue_rep h' q' (pushed xs (malloc h) proc) \<and>
     (\<forall>b. malloc h \<noteq> Some b \<longrightarrow> b \<notin> fst ` set xs \<longrightarrow> h' b = h b) \<and>
     (push_outcome xs (malloc h) proc \<noteq> push_success \<longrightarrow> h' = h \<and> q' = q)"
proof -
  from rep have seg: "dseg h (q_top q) None xs None (q_bottom q)" and sz: "q_size q = length xs"
    by (simp_all add: queue_rep_def)
  from nice have rng: "10 \<le> niceness proc \<and> niceness proc \<le> 49" by (simp add: nice_ok_def)
  show ?thesis
  proof (cases "xs = []")
    case True
    with seg have top: "q_top q = None" and bot: "q_bottom q = None" by simp_all
    show ?thesis
    proof (cases "malloc h")
      case None
      with top rng True rep show ?thesis
        by (simp add: push_to_queue_def create_item_def push_outcome_def pushed_def)
    next
      case (Some n)
      with top rng True sz show ?thesis
        by (simp add: push_to_queue_def create_item_def push_outcome_def pushed_def
            insert_entry_def queue_rep_def)
    qed
  next
    case False
    with seg obtain t where top: "q_top q = Some t" by (cases xs) auto
    have valid: "processes_are_valid h q proc = Some (classify (map snd xs) proc)"
      unfolding processes_are_valid_def using seg by (rule processes_are_valid_loop_dseg)
    show ?thesis
    proof (cases "classify (map snd xs) proc = push_success")
      case cf: False
      with top rng valid False rep show ?thesis
        by (simp add: push_to_queue_def push_outcome_def pushed_def split: option.splits)
    next
      case cs: True
      let ?P = "\<lambda>x. process_evaluation proc (snd x)"
      have loop: "push_to_queue malloc h q proc =
         (case find ?P xs of
            None \<Rightarrow> append_bottom malloc h q proc
          | Some x \<Rightarrow> insert_before malloc h q proc (fst x))"
        using top rng valid cs push_loop_dseg [OF seg] by (simp add: push_to_queue_def)
      show ?thesis
      proof (cases "malloc h")
        case None
        have "push_to_queue malloc h q proc = Some (h, q, push_error)"
        proof (cases "find ?P xs")
          case fn: None
          with loop None show ?thesis by (simp add: append_bottom_fail)
        next
          case (Some x)
          then have "x \<in> set xs" by (auto dest: find_Some_split)
          then have "(fst x, snd x) \<in> set xs" by simp
          with seg obtain it where "h (fst x) = Some it" by (blast dest: dseg_lookup)
          with loop None Some show ?thesis by (simp add: insert_before_fail)
        qed
        with None cs False rep show ?thesis
          by (simp add: push_outcome_def pushed_def)
      next
        case (Some n)
        with al have fresh: "h n = None" by (simp add: allocator_def)
        have out: "push_outcome xs (malloc h) proc = push_success"
          and pshd: "pushed xs (malloc h) proc = insert_entry (n, proc) xs"
          using Some cs by (simp_all add: push_outcome_def pushed_def)
        show ?thesis
        proof (cases "find ?P xs")
          case fn: None
          then have ins: "insert_entry (n, proc) xs = xs @ [(n, proc)]"
            by (simp add: insert_entry_def find_None_split)
          from append_bottom_rep [where malloc = malloc and proc = proc, OF rep False Some fresh] loop fn
          show ?thesis unfolding out pshd ins using Some by auto
        next
          case fs: (Some x)
          from find_Some_split [OF fs] obtain pre post where
            xs: "xs = pre @ x # post" and tw: "takeWhile (\<lambda>z. \<not> ?P z) xs = pre"
            and dw: "dropWhile (\<lambda>z. \<not> ?P z) xs = x # post"
            by blast
          from tw dw have ins: "insert_entry (n, proc) xs = pre @ (n, proc) # (fst x, snd x) # post"
            by (simp add: insert_entry_def)
          from rep xs have "queue_rep h q (pre @ (fst x, snd x) # post)" by simp
          from insert_before_rep [where malloc = malloc and proc = proc, OF this Some fresh] loop fs
          show ?thesis unfolding out pshd ins using Some xs by (auto simp: image_Un)
        qed
      qed
    qed
  qed
qed

section \<open>Order and the invariant under insertion\<close>

lemma process_evaluation_trans:
  "process_evaluation a b \<Longrightarrow> process_evaluation b c \<Longrightarrow> process_evaluation a c"
  by (auto simp: process_evaluation_score32)

lemma process_evaluation_asym:
  "process_evaluation a b \<Longrightarrow> \<not> process_evaluation b a"
  by (auto simp: process_evaluation_score32)

lemma process_evaluation_before:
  "process_evaluation p d \<Longrightarrow> \<not> process_evaluation b d \<Longrightarrow> \<not> process_evaluation b p"
  by (auto simp: process_evaluation_score32)

lemma in_order_append:
  "in_order (ps @ qs) \<longleftrightarrow>
     in_order ps \<and> in_order qs \<and> (\<forall>p \<in> set ps. \<forall>p' \<in> set qs. \<not> process_evaluation p' p)"
  by (simp add: in_order_def sorted_wrt_append)

lemma in_order_Cons:
  "in_order (p # ps) \<longleftrightarrow> (\<forall>p' \<in> set ps. \<not> process_evaluation p' p) \<and> in_order ps"
  by (simp add: in_order_def)

lemma in_order_remove:
  "in_order (map snd (xs @ y # ys)) \<Longrightarrow> in_order (map snd (xs @ ys))"
  by (auto simp: in_order_append in_order_Cons)

lemma in_order_insert_entry:
  assumes "in_order (map snd xs)"
  shows "in_order (map snd (insert_entry x xs))"
proof (cases "find (\<lambda>y. process_evaluation (snd x) (snd y)) xs")
  case None
  then have "insert_entry x xs = xs @ [x]"
    by (simp add: insert_entry_def find_None_split)
  moreover from None have "\<forall>y \<in> set xs. \<not> process_evaluation (snd x) (snd y)"
    by (auto simp: find_None_iff)
  ultimately show ?thesis using assms
    by (auto simp: in_order_def sorted_wrt_append)
next
  case (Some d)
  from find_Some_split [OF Some] obtain pre post where
    xs: "xs = pre @ d # post" and tw: "takeWhile (\<lambda>z. \<not> process_evaluation (snd x) (snd z)) xs = pre"
    and dw: "dropWhile (\<lambda>z. \<not> process_evaluation (snd x) (snd z)) xs = d # post"
    and d: "process_evaluation (snd x) (snd d)"
    and pre: "\<forall>z \<in> set pre. \<not> process_evaluation (snd x) (snd z)"
    by blast
  from tw dw have ins: "insert_entry x xs = pre @ x # d # post"
    by (simp add: insert_entry_def)
  from assms xs have ord: "in_order (map snd pre)" "in_order (map snd post)"
    "\<forall>b \<in> set post. \<not> process_evaluation (snd b) (snd d)"
    "\<forall>a \<in> set pre. \<not> process_evaluation (snd d) (snd a)"
    "\<forall>a \<in> set pre. \<forall>b \<in> set post. \<not> process_evaluation (snd b) (snd a)"
    by (auto simp: in_order_append in_order_Cons)
  have "\<forall>b \<in> set post. \<not> process_evaluation (snd b) (snd x)"
    using process_evaluation_before [OF d] ord(3) by blast
  moreover have "\<not> process_evaluation (snd d) (snd x)"
    using d by (rule process_evaluation_asym)
  ultimately show ?thesis
    unfolding ins using ord pre by (auto simp: in_order_append in_order_Cons)
qed

lemma find_Some_set: "find P xs = Some y \<Longrightarrow> y \<in> set xs \<and> P y"
  by (induction xs) (auto split: if_splits)

lemma classify_success_iff:
  "classify ps p = push_success \<longleftrightarrow> identity p \<notin> identity ` set ps"
proof (cases "find (\<lambda>p'. identity p' = identity p) ps")
  case None
  then have "\<forall>p' \<in> set ps. identity p' \<noteq> identity p" by (simp add: find_None_iff)
  then have "identity p \<notin> identity ` set ps" by force
  with None show ?thesis by (simp add: classify_def)
next
  case (Some p')
  from find_Some_set [OF Some] have "p' \<in> set ps" "identity p' = identity p" by auto
  then have "identity p \<in> identity ` set ps" by (metis imageI)
  with Some show ?thesis by (simp add: classify_def)
qed

lemma insert_entry_split:
  "\<exists>tw dw. xs = tw @ dw \<and> insert_entry x xs = tw @ x # dw"
proof (intro exI conjI)
  show "xs = takeWhile (\<lambda>y. \<not> process_evaluation (snd x) (snd y)) xs @
             dropWhile (\<lambda>y. \<not> process_evaluation (snd x) (snd y)) xs"
    by simp
  show "insert_entry x xs = takeWhile (\<lambda>y. \<not> process_evaluation (snd x) (snd y)) xs @ x #
             dropWhile (\<lambda>y. \<not> process_evaluation (snd x) (snd y)) xs"
    by (simp add: insert_entry_def)
qed

lemma set_insert_entry: "set (insert_entry x xs) = insert x (set xs)"
  using insert_entry_split [of xs x] by auto

lemma length_insert_entry: "length (insert_entry x xs) = Suc (length xs)"
  using insert_entry_split [of xs x] by auto

lemma distinct_insert_entry:
  assumes "distinct (map f xs)" "f x \<notin> f ` set xs"
  shows "distinct (map f (insert_entry x xs))"
  using insert_entry_split [of xs x] assms by auto

lemma queue_inv_pushed:
  assumes inv: "queue_inv h q xs" and rep: "queue_rep h' q' (pushed xs new proc)" and nice: "nice_ok proc"
  shows "queue_inv h' q' (pushed xs new proc)"
proof (cases "pushed xs new proc = xs")
  case True
  with inv rep show ?thesis by (simp add: queue_inv_def)
next
  case False
  then obtain n where new: "new = Some n" and ins: "pushed xs new proc = insert_entry (n, proc) xs"
    and ok: "xs = [] \<or> classify (map snd xs) proc = push_success"
    by (auto simp: pushed_def split: option.splits if_splits)
  from ok have "identity proc \<notin> identity ` set (map snd xs)"
    by (auto simp: classify_success_iff)
  then have "(identity \<circ> snd) (n, proc) \<notin> (identity \<circ> snd) ` set xs"
    by (simp add: image_comp)
  with inv have "distinct (map (identity \<circ> snd) (insert_entry (n, proc) xs))"
    by (intro distinct_insert_entry) (simp_all add: queue_inv_def)
  moreover from inv have "in_order (map snd (insert_entry (n, proc) xs))"
    by (intro in_order_insert_entry) (simp add: queue_inv_def)
  moreover from inv nice have "list_all (nice_ok \<circ> snd) (insert_entry (n, proc) xs)"
    by (simp add: list_all_iff set_insert_entry queue_inv_def)
  ultimately show ?thesis using rep ins by (simp add: queue_inv_def)
qed

section \<open>Removal and selection\<close>

lemma queue_inv_remove:
  assumes "queue_inv h q (ys @ x # zs)" "queue_rep h' q' (ys @ zs)"
  shows "queue_inv h' q' (ys @ zs)"
proof -
  from assms(1) have "in_order (map snd (ys @ x # zs))" by (simp add: queue_inv_def)
  then have "in_order (map snd (ys @ zs))" by (rule in_order_remove)
  with assms show ?thesis by (auto simp: queue_inv_def)
qed

lemma queue_rep_set_process:
  assumes rep: "queue_rep h q (ys @ (a, p) # zs)" and it: "h a = Some it"
  shows "queue_rep (h(a \<mapsto> it\<lparr>process := p'\<rparr>)) q (ys @ (a, p') # zs)"
proof -
  from rep have seg: "dseg h (q_top q) None (ys @ (a, p) # zs) None (q_bottom q)"
    by (simp add: queue_rep_def)
  from seg have "distinct (map fst (ys @ (a, p) # zs))" by (rule dseg_distinct)
  then have a_ys: "a \<notin> fst ` set ys" and a_zs: "a \<notin> fst ` set zs" by auto
  from seg obtain m l where pre: "dseg h (q_top q) None ys m l"
    and suf: "dseg h m l ((a, p) # zs) None (q_bottom q)"
    by (auto simp: dseg_append)
  from suf it have m: "m = Some a" and l: "item_prev it = l"
    and tl: "dseg h (item_next it) (Some a) zs None (q_bottom q)"
    by (auto split: option.splits)
  let ?h = "h(a \<mapsto> it\<lparr>process := p'\<rparr>)"
  have "dseg ?h (q_top q) None ys m l"
    using pre a_ys by (simp add: dseg_upd_other)
  moreover have "dseg ?h m l ((a, p') # zs) None (q_bottom q)"
    using tl a_zs m l by (simp add: dseg_upd_other)
  ultimately show ?thesis
    using rep by (auto simp: queue_rep_def dseg_append)
qed

lemma clear_queue_rep:
  assumes "queue_rep h q xs"
  shows "clear_queue h q =
     Some (\<lambda>a. if a \<in> fst ` set xs then None else h a, q\<lparr>q_bottom := None, q_top := None, q_size := 0\<rparr>)"
proof -
  from assms have "dseg h (q_top q) None xs None (q_bottom q)" by (simp add: queue_rep_def)
  then have "clear_loop h (q_top q) = Some (\<lambda>a. if a \<in> fst ` set xs then None else h a)"
    by (rule clear_loop_dseg)
  then show ?thesis by (simp add: clear_queue_def)
qed

lemma queue_inv_empty: "queue_inv h (q\<lparr>q_bottom := None, q_top := None, q_size := 0\<rparr>) []"
  by (simp add: queue_inv_def queue_rep_def in_order_def)

lemma queue_inv_create: "queue_inv h create_queue []"
  by (simp add: queue_inv_def queue_rep_def in_order_def create_queue_def)

lemma write_out_plain:
  "out = out_null \<or> out = out_local \<Longrightarrow>
   write_out h out p = Some (h, if out = out_local then Some p else None)"
  by (auto simp: write_out_def)

lemma write_out_self:
  "h a = Some it \<Longrightarrow> write_out h (out_node a) (process it) = Some (h, None)"
  by (simp add: write_out_def map_upd_triv)

lemma pop_top_item_rep:
  assumes rep: "queue_rep h q (ys @ (a, p) # zs)"
    and out: "out = out_null \<or> out = out_local \<or> out = out_node a"
  shows "\<exists>h' q'. pop_top_item h q out a = Some (h', q', True, if out = out_local then Some p else None) \<and>
           queue_rep h' q' (ys @ zs) \<and> h' a = None \<and>
           (\<forall>b. b \<noteq> a \<longrightarrow> b \<notin> fst ` set ys \<longrightarrow> b \<notin> fst ` set zs \<longrightarrow> h' b = h b)"
proof -
  from rep have "dseg h (q_top q) None (ys @ (a, p) # zs) None (q_bottom q)"
    by (simp add: queue_rep_def)
  from dseg_lookup [OF this, of a p] obtain it where it: "h a = Some it" "process it = p"
    by auto
  have w: "write_out h out (process it) = Some (h, if out = out_local then Some p else None)"
    using out it by (auto simp: write_out_plain write_out_self)
  from pop_item_rep [OF rep] obtain h' q' where
    "pop_item h q a = Some (h', q')" "queue_rep h' q' (ys @ zs)" "h' a = None"
    "\<forall>b. b \<noteq> a \<longrightarrow> b \<notin> fst ` set ys \<longrightarrow> b \<notin> fst ` set zs \<longrightarrow> h' b = h b"
    by blast
  with it w show ?thesis
    by (simp add: pop_top_item_def)
qed

lemma pop_top_rep:
  assumes rep: "queue_rep h q xs"
    and f: "find (\<lambda>x. cpu_mask (snd x) AND cm \<noteq> 0) xs = Some x"
    and out: "out = out_null \<or> out = out_local \<or> out = out_node (fst x)"
  shows "\<exists>h' q'. pop_top h q cm out = Some (h', q', True, if out = out_local then Some (snd x) else None) \<and>
           queue_rep h' q' (remove1 x xs) \<and> h' (fst x) = None \<and>
           (\<forall>b. b \<notin> fst ` set xs \<longrightarrow> h' b = h b)"
proof -
  from rep have seg: "dseg h (q_top q) None xs None (q_bottom q)" by (simp add: queue_rep_def)
  from find_Some_split [OF f] obtain ys zs where xs: "xs = ys @ x # zs"
    and nys: "\<forall>z \<in> set ys. \<not> (cpu_mask (snd z) AND cm \<noteq> 0)" and px: "cpu_mask (snd x) AND cm \<noteq> 0"
    by blast
  from nys px have "x \<notin> set ys" by auto
  then have rm: "remove1 x xs = ys @ zs" using xs by (simp add: remove1_append)
  from rep xs have "queue_rep h q (ys @ (fst x, snd x) # zs)" by simp
  from pop_top_item_rep [OF this out] pop_top_loop_dseg [OF seg, of q cm out] f
  show ?thesis unfolding rm pop_top_def using xs by (auto simp: image_Un)
qed

lemma pop_top_none:
  assumes rep: "queue_rep h q xs"
    and f: "find (\<lambda>x. cpu_mask (snd x) AND cm \<noteq> 0) xs = None"
  shows "pop_top h q cm out = Some (h, q, False, None)"
proof -
  from rep have seg: "dseg h (q_top q) None xs None (q_bottom q)" by (simp add: queue_rep_def)
  from pop_top_loop_dseg [OF seg, of q cm out] f show ?thesis by (simp add: pop_top_def)
qed

lemma get_top_rep:
  assumes rep: "queue_rep h q xs"
  shows "get_top h q cm = Some (map_option fst (find (\<lambda>x. cpu_mask (snd x) AND cm \<noteq> 0) xs))"
proof -
  from rep have seg: "dseg h (q_top q) None xs None (q_bottom q)" by (simp add: queue_rep_def)
  then show ?thesis unfolding get_top_def by (rule get_top_loop_dseg)
qed

lemma pop_top_as_pop_item:
  assumes rep: "queue_rep h q xs"
    and f: "find (\<lambda>x. cpu_mask (snd x) AND cm \<noteq> 0) xs = Some x"
    and out: "out = out_null \<or> out = out_local \<or> out = out_node (fst x)"
  shows "pop_top h q cm out =
     (case pop_item h q (fst x) of
        None \<Rightarrow> None
      | Some (h2, q2) \<Rightarrow> Some (h2, q2, True, if out = out_local then Some (snd x) else None))"
proof -
  from rep have seg: "dseg h (q_top q) None xs None (q_bottom q)" by (simp add: queue_rep_def)
  from find_Some_set [OF f] have "(fst x, snd x) \<in> set xs" by simp
  from dseg_lookup [OF seg this] obtain it where it: "h (fst x) = Some it" "process it = snd x"
    by auto
  have w: "write_out h out (process it) = Some (h, if out = out_local then Some (snd x) else None)"
    using out it(2) write_out_self [of h "fst x" it, OF it(1)] by (auto simp: write_out_plain)
  from pop_top_loop_dseg [OF seg, of q cm out] f it w show ?thesis
    by (simp add: pop_top_def pop_top_item_def)
qed

lemma requeue_rep:
  assumes inv: "queue_inv h q (ys @ (a, p) # zs)" and it: "h a = Some it"
    and al: "allocator malloc" and id: "identity p' = identity p" and nice: "nice_ok p'"
  shows "\<exists>h2 q2 h3 q3.
     pop_item (h(a \<mapsto> it\<lparr>process := p'\<rparr>)) q a = Some (h2, q2) \<and>
     queue_inv h2 q2 (ys @ zs) \<and> h2 a = None \<and>
     (\<forall>b. b \<noteq> a \<longrightarrow> b \<notin> fst ` set ys \<longrightarrow> b \<notin> fst ` set zs \<longrightarrow> h2 b = h b) \<and>
     push_to_queue malloc h2 q2 p' =
       Some (h3, q3, if malloc h2 = None then push_error else push_success) \<and>
     queue_inv h3 q3 (case malloc h2 of None \<Rightarrow> ys @ zs | Some n \<Rightarrow> insert_entry (n, p') (ys @ zs)) \<and>
     (\<forall>b. malloc h2 \<noteq> Some b \<longrightarrow> b \<notin> fst ` set (ys @ zs) \<longrightarrow> h3 b = h2 b) \<and>
     (malloc h2 = None \<longrightarrow> h3 = h2 \<and> q3 = q2)"
proof -
  let ?h1 = "h(a \<mapsto> it\<lparr>process := p'\<rparr>)"
  from inv have rep: "queue_rep h q (ys @ (a, p) # zs)" by (simp add: queue_inv_def)
  from rep it have rep1: "queue_rep ?h1 q (ys @ (a, p') # zs)" by (rule queue_rep_set_process)
  from pop_item_rep [OF rep1] obtain h2 q2 where
    pop: "pop_item ?h1 q a = Some (h2, q2)" and rep2: "queue_rep h2 q2 (ys @ zs)" and gone: "h2 a = None"
    and fr: "\<forall>b. b \<noteq> a \<longrightarrow> b \<notin> fst ` set ys \<longrightarrow> b \<notin> fst ` set zs \<longrightarrow> h2 b = ?h1 b"
    by blast
  from inv rep2 have inv2: "queue_inv h2 q2 (ys @ zs)" by (rule queue_inv_remove)
  from inv have "identity p \<notin> identity ` set (map snd (ys @ zs))"
    by (auto simp: queue_inv_def)
  with id have cl: "classify (map snd (ys @ zs)) p' = push_success"
    by (simp add: classify_success_iff)
  from push_to_queue_rep [OF rep2 al nice] obtain h3 q3 where
    push: "push_to_queue malloc h2 q2 p' = Some (h3, q3, push_outcome (ys @ zs) (malloc h2) p')"
    and rep3: "queue_rep h3 q3 (pushed (ys @ zs) (malloc h2) p')"
    and fr3: "\<forall>b. malloc h2 \<noteq> Some b \<longrightarrow> b \<notin> fst ` set (ys @ zs) \<longrightarrow> h3 b = h2 b"
    and same: "push_outcome (ys @ zs) (malloc h2) p' \<noteq> push_success \<longrightarrow> h3 = h2 \<and> q3 = q2"
    by blast
  from inv2 rep3 nice have inv3: "queue_inv h3 q3 (pushed (ys @ zs) (malloc h2) p')"
    by (rule queue_inv_pushed)
  have out: "push_outcome (ys @ zs) (malloc h2) p' = (if malloc h2 = None then push_error else push_success)"
    using cl by (simp add: push_outcome_def)
  have pshd: "pushed (ys @ zs) (malloc h2) p' =
      (case malloc h2 of None \<Rightarrow> ys @ zs | Some n \<Rightarrow> insert_entry (n, p') (ys @ zs))"
    using cl by (simp add: pushed_def split: option.splits)
  from fr have fr': "\<forall>b. b \<noteq> a \<longrightarrow> b \<notin> fst ` set ys \<longrightarrow> b \<notin> fst ` set zs \<longrightarrow> h2 b = h b"
    by simp
  show ?thesis
    using pop inv2 gone fr' push inv3 fr3 same unfolding out pshd
    by (intro exI [of _ h2] exI [of _ q2] exI [of _ h3] exI [of _ q3]) simp
qed

section \<open>Renice and the execution driver\<close>

lemma queue_inv_remove1:
  assumes "queue_inv h q xs" "x \<in> set xs" "queue_rep h' q' (remove1 x xs)"
  shows "queue_inv h' q' (remove1 x xs)"
proof -
  from split_list_first [OF assms(2)] obtain ys zs where xs: "xs = ys @ x # zs" and "x \<notin> set ys"
    by blast
  then have rm: "remove1 x xs = ys @ zs" by (simp add: remove1_append)
  from assms(1) xs have "queue_inv h q (ys @ x # zs)" by simp
  moreover from assms(3) rm have "queue_rep h' q' (ys @ zs)" by simp
  ultimately have "queue_inv h' q' (ys @ zs)" by (rule queue_inv_remove)
  with rm show ?thesis by simp
qed

lemma find_first:
  "\<forall>z \<in> set ys. \<not> P z \<Longrightarrow> P y \<Longrightarrow> find P (ys @ y # zs) = Some y"
  by (induction ys) auto

lemma renice_absent:
  assumes rep: "queue_rep h q xs" and rng: "10 \<le> nice \<and> nice \<le> 49"
    and f: "find (\<lambda>x. identity (snd x) = (cb, cx)) xs = None"
  shows "renice malloc h q cb cx nice = Some (h, q, False)"
proof -
  from rep have seg: "dseg h (q_top q) None xs None (q_bottom q)" by (simp add: queue_rep_def)
  from renice_loop_dseg [OF seg, of malloc q cb cx nice] f rng show ?thesis
    by (simp add: renice_def)
qed

lemma renice_present:
  assumes inv: "queue_inv h q xs" and al: "allocator malloc" and rng: "10 \<le> nice \<and> nice \<le> 49"
    and f: "find (\<lambda>x. identity (snd x) = (cb, cx)) xs = Some x"
  shows "\<exists>h2 q2 h3 q3.
     queue_inv h2 q2 (remove1 x xs) \<and> h2 (fst x) = None \<and>
     (\<forall>b. b \<notin> fst ` set xs \<longrightarrow> h2 b = h b) \<and>
     renice malloc h q cb cx nice = Some (h3, q3, True) \<and>
     queue_inv h3 q3
       (case malloc h2 of
          None \<Rightarrow> remove1 x xs
        | Some n \<Rightarrow> insert_entry (n, (snd x)\<lparr>niceness := nice\<rparr>) (remove1 x xs)) \<and>
     (\<forall>b. malloc h2 \<noteq> Some b \<longrightarrow> b \<notin> fst ` set xs \<longrightarrow> h3 b = h b)"
proof -
  from inv have rep: "queue_rep h q xs" by (simp add: queue_inv_def)
  then have seg: "dseg h (q_top q) None xs None (q_bottom q)" by (simp add: queue_rep_def)
  from find_Some_split [OF f] obtain ys zs where xs: "xs = ys @ x # zs"
    and nys: "\<forall>z \<in> set ys. identity (snd z) \<noteq> (cb, cx)" and px: "identity (snd x) = (cb, cx)"
    by blast
  from nys px have "x \<notin> set ys" by auto
  then have rm: "remove1 x xs = ys @ zs" using xs by (simp add: remove1_append)
  from find_Some_set [OF f] have "(fst x, snd x) \<in> set xs" by simp
  from dseg_lookup [OF seg this] obtain it where it: "h (fst x) = Some it" "process it = snd x"
    by auto
  let ?p' = "(snd x)\<lparr>niceness := nice\<rparr>"
  have id: "identity ?p' = identity (snd x)" by (simp add: identity_def)
  have nice: "nice_ok ?p'" using rng by (simp add: nice_ok_def)
  from inv xs have inv': "queue_inv h q (ys @ (fst x, snd x) # zs)" by simp
  from requeue_rep [OF inv' it(1) al id nice] obtain h2 q2 h3 q3 where
    pop: "pop_item (h(fst x \<mapsto> it\<lparr>process := ?p'\<rparr>)) q (fst x) = Some (h2, q2)"
    and inv2: "queue_inv h2 q2 (ys @ zs)" and gone: "h2 (fst x) = None"
    and fr2: "\<forall>b. b \<noteq> fst x \<longrightarrow> b \<notin> fst ` set ys \<longrightarrow> b \<notin> fst ` set zs \<longrightarrow> h2 b = h b"
    and push: "push_to_queue malloc h2 q2 ?p' =
       Some (h3, q3, if malloc h2 = None then push_error else push_success)"
    and inv3: "queue_inv h3 q3 (case malloc h2 of None \<Rightarrow> ys @ zs | Some n \<Rightarrow> insert_entry (n, ?p') (ys @ zs))"
    and fr3: "\<forall>b. malloc h2 \<noteq> Some b \<longrightarrow> b \<notin> fst ` set (ys @ zs) \<longrightarrow> h3 b = h2 b"
    by blast
  have "renice_item malloc h q nice (fst x) = Some (h3, q3, True)"
    using it pop push by (simp add: renice_item_def Let_def)
  with renice_loop_dseg [OF seg, of malloc q cb cx nice] f rng
  have res: "renice malloc h q cb cx nice = Some (h3, q3, True)"
    by (simp add: renice_def)
  have fr2': "\<forall>b. b \<notin> fst ` set xs \<longrightarrow> h2 b = h b"
    using fr2 xs by (auto simp: image_Un)
  have fr3': "\<forall>b. malloc h2 \<noteq> Some b \<longrightarrow> b \<notin> fst ` set xs \<longrightarrow> h3 b = h b"
    using fr2 fr3 xs by (auto simp: image_Un)
  show ?thesis
    using inv2 gone fr2' res inv3 fr3' unfolding rm
    by (intro exI [of _ h2] exI [of _ q2] exI [of _ h3] exI [of _ q3]) simp
qed

lemma run_top_none:
  assumes rep: "queue_rep h q xs"
    and f: "find (\<lambda>x. cpu_mask (snd x) AND cm \<noteq> 0) xs = None"
  shows "run_top malloc call h q cm run_time = Some (h, q, 0, None)"
  using get_top_rep [OF rep, of cm] f by (simp add: run_top_def)

lemma run_top_done:
  assumes inv: "queue_inv h q xs"
    and f: "find (\<lambda>x. cpu_mask (snd x) AND cm \<noteq> 0) xs = Some x"
    and zero: "call (callback (snd x)) run_time (ctx (snd x)) = 0"
  shows "\<exists>h' q'. pop_item h q (fst x) = Some (h', q') \<and>
     run_top malloc call h q cm run_time = Some (h', q', 0, Some (callback (snd x), run_time, ctx (snd x))) \<and>
     queue_inv h' q' (remove1 x xs) \<and> h' (fst x) = None \<and> (\<forall>b. b \<notin> fst ` set xs \<longrightarrow> h' b = h b)"
proof -
  from inv have rep: "queue_rep h q xs" by (simp add: queue_inv_def)
  then have seg: "dseg h (q_top q) None xs None (q_bottom q)" by (simp add: queue_rep_def)
  from find_Some_set [OF f] have mem: "x \<in> set xs" and "(fst x, snd x) \<in> set xs" by simp_all
  from dseg_lookup [OF seg this(2)] obtain it where it: "h (fst x) = Some it" "process it = snd x"
    by auto
  from mem seg have top: "q_top q \<noteq> None" by (cases xs) auto
  from pop_top_rep [OF rep f, of "out_node (fst x)"] obtain h' q' where
    pt: "pop_top h q cm (out_node (fst x)) = Some (h', q', True, None)"
    and rep': "queue_rep h' q' (remove1 x xs)" and gone: "h' (fst x) = None"
    and fr: "\<forall>b. b \<notin> fst ` set xs \<longrightarrow> h' b = h b"
    by auto
  from pt pop_top_as_pop_item [OF rep f, of "out_node (fst x)"]
  have pi: "pop_item h q (fst x) = Some (h', q')"
    by (auto split: option.splits)
  from inv mem rep' have "queue_inv h' q' (remove1 x xs)" by (rule queue_inv_remove1)
  moreover have "run_top malloc call h q cm run_time =
      Some (h', q', 0, Some (callback (snd x), run_time, ctx (snd x)))"
    using top get_top_rep [OF rep, of cm] f it zero pt by (auto simp: run_top_def)
  ultimately show ?thesis using pi gone fr by blast
qed

lemma run_top_requeue:
  assumes inv: "queue_inv h q xs" and al: "allocator malloc"
    and f: "find (\<lambda>x. cpu_mask (snd x) AND cm \<noteq> 0) xs = Some x"
    and nz: "call (callback (snd x)) run_time (ctx (snd x)) = v" "v \<noteq> 0"
    and p': "p' = (snd x)\<lparr>remaining_time :=
        (if remaining_time (snd x) > run_time then remaining_time (snd x) - run_time + v else v)\<rparr>"
  shows "\<exists>it h2 q2 h3 q3 r.
     h (fst x) = Some it \<and>
     pop_item (h(fst x \<mapsto> it\<lparr>process := p'\<rparr>)) q (fst x) = Some (h2, q2) \<and>
     queue_inv h2 q2 (remove1 x xs) \<and> h2 (fst x) = None \<and>
     (\<forall>b. b \<notin> fst ` set xs \<longrightarrow> h2 b = h b) \<and>
     push_to_queue malloc h2 q2 p' = Some (h3, q3, r) \<and>
     run_top malloc call h q cm run_time =
       Some (h3, q3, remaining_time p', Some (callback (snd x), run_time, ctx (snd x))) \<and>
     queue_inv h3 q3
       (case malloc h2 of
          None \<Rightarrow> remove1 x xs
        | Some n \<Rightarrow> insert_entry (n, p') (remove1 x xs)) \<and>
     (\<forall>b. malloc h2 \<noteq> Some b \<longrightarrow> b \<notin> fst ` set xs \<longrightarrow> h3 b = h b)"
proof -
  from inv have rep: "queue_rep h q xs" by (simp add: queue_inv_def)
  then have seg: "dseg h (q_top q) None xs None (q_bottom q)" by (simp add: queue_rep_def)
  from find_Some_split [OF f] obtain ys zs where xs: "xs = ys @ x # zs"
    and nys: "\<forall>z \<in> set ys. \<not> (cpu_mask (snd z) AND cm \<noteq> 0)" and px: "cpu_mask (snd x) AND cm \<noteq> 0"
    and tw: "takeWhile (\<lambda>z. \<not> (cpu_mask (snd z) AND cm \<noteq> 0)) xs = ys"
    by blast
  from nys px have "x \<notin> set ys" by auto
  then have rm: "remove1 x xs = ys @ zs" using xs by (simp add: remove1_append)
  from find_Some_set [OF f] have mem: "x \<in> set xs" and "(fst x, snd x) \<in> set xs" by simp_all
  from dseg_lookup [OF seg this(2)] obtain it where it: "h (fst x) = Some it" "process it = snd x"
    by auto
  from mem seg have top: "q_top q \<noteq> None" by (cases xs) auto
  have id: "identity p' = identity (snd x)" by (simp add: p' identity_def)
  from inv mem have "nice_ok (snd x)" by (auto simp: queue_inv_def list_all_iff)
  then have nice: "nice_ok p'" by (simp add: p' nice_ok_def)
  let ?h1 = "h(fst x \<mapsto> it\<lparr>process := p'\<rparr>)"
  from inv xs have inv': "queue_inv h q (ys @ (fst x, snd x) # zs)" by simp
  then have "queue_rep h q (ys @ (fst x, snd x) # zs)" by (simp add: queue_inv_def)
  from queue_rep_set_process [OF this it(1), of p']
  have rep1: "queue_rep ?h1 q (ys @ (fst x, p') # zs)" .
  have f1: "find (\<lambda>x. cpu_mask (snd x) AND cm \<noteq> 0) (ys @ (fst x, p') # zs) = Some (fst x, p')"
    using nys px by (intro find_first) (simp_all add: p')
  from requeue_rep [OF inv' it(1) al id nice] obtain h2 q2 h3 q3 where
    pop: "pop_item ?h1 q (fst x) = Some (h2, q2)"
    and inv2: "queue_inv h2 q2 (ys @ zs)" and gone: "h2 (fst x) = None"
    and fr2: "\<forall>b. b \<noteq> fst x \<longrightarrow> b \<notin> fst ` set ys \<longrightarrow> b \<notin> fst ` set zs \<longrightarrow> h2 b = h b"
    and push: "push_to_queue malloc h2 q2 p' =
       Some (h3, q3, if malloc h2 = None then push_error else push_success)"
    and inv3: "queue_inv h3 q3 (case malloc h2 of None \<Rightarrow> ys @ zs | Some n \<Rightarrow> insert_entry (n, p') (ys @ zs))"
    and fr3: "\<forall>b. malloc h2 \<noteq> Some b \<longrightarrow> b \<notin> fst ` set (ys @ zs) \<longrightarrow> h3 b = h2 b"
    by blast
  from pop_top_as_pop_item [OF rep1 f1, of out_local] pop
  have pt: "pop_top ?h1 q cm out_local = Some (h2, q2, True, Some p')" by simp
  have res: "run_top malloc call h q cm run_time =
      Some (h3, q3, remaining_time p', Some (callback (snd x), run_time, ctx (snd x)))"
    using top get_top_rep [OF rep, of cm] f it nz pt push
    by (auto simp: run_top_def Let_def p')
  have fr2': "\<forall>b. b \<notin> fst ` set xs \<longrightarrow> h2 b = h b"
    using fr2 xs by (auto simp: image_Un)
  have fr3': "\<forall>b. malloc h2 \<noteq> Some b \<longrightarrow> b \<notin> fst ` set xs \<longrightarrow> h3 b = h b"
    using fr2 fr3 xs by (auto simp: image_Un)
  show ?thesis
    using it(1) pop inv2 gone fr2' push res inv3 fr3' unfolding rm
    by (intro exI [of _ it] exI [of _ h2] exI [of _ q2] exI [of _ h3] exI [of _ q3]
        exI [of _ "if malloc h2 = None then push_error else push_success"]) simp
qed

section \<open>Copying\<close>

lemma copy_node_fail:
  assumes "queue_rep h nq bs" "malloc h = None"
  shows "copy_node malloc h nq p = Some (\<lambda>b. if b \<in> fst ` set bs then None else h b, None)"
  using assms(2) clear_queue_rep [OF assms(1)]
  by (simp add: copy_node_def create_item_def)

lemma copy_node_rep:
  assumes rep: "queue_rep h nq bs" and al: "malloc h = Some n" and fresh: "h n = None"
  shows "\<exists>h4 nq2. copy_node malloc h nq p = Some (h4, Some nq2) \<and>
           queue_rep h4 nq2 (bs @ [(n, p)]) \<and>
           (\<forall>b. b \<noteq> n \<longrightarrow> b \<notin> fst ` set bs \<longrightarrow> h4 b = h b)"
proof -
  from rep have seg: "dseg h (q_top nq) None bs None (q_bottom nq)" and sz: "q_size nq = length bs"
    by (simp_all add: queue_rep_def)
  from seg fresh have n_bs: "n \<notin> fst ` set bs" by (rule dseg_fresh)
  from seg have d_bs: "distinct (map fst bs)" by (rule dseg_distinct)
  show ?thesis
  proof (cases bs rule: rev_cases)
    case Nil
    with seg have top: "q_top nq = None" and bot: "q_bottom nq = None" by simp_all
    let ?h4 = "h(n \<mapsto> \<lparr>process = p, item_next = None, item_prev = None\<rparr>)"
    have "copy_node malloc h nq p =
       Some (?h4, Some (nq\<lparr>q_top := Some n, q_bottom := Some n, q_size := q_size nq + 1\<rparr>))"
      using al top bot by (simp add: copy_node_def create_item_def Let_def)
    then show ?thesis using Nil sz by (simp add: queue_rep_def)
  next
    case (snoc bs' c)
    with seg obtain l' ct where pre': "dseg h (q_top nq) None bs' (Some (fst c)) l'"
      and ct: "h (fst c) = Some ct" "process ct = snd c" "item_prev ct = l'" "item_next ct = None"
      and bot: "q_bottom nq = Some (fst c)"
      by (auto simp: dseg_snoc)
    from seg snoc obtain t where top: "q_top nq = Some t" by (cases bs') auto
    from n_bs snoc have cn: "fst c \<noteq> n" and n_bs': "n \<notin> fst ` set bs'" by auto
    from d_bs snoc have c_bs': "fst c \<notin> fst ` set bs'" by auto
    let ?h4 = "h(n \<mapsto> \<lparr>process = p, item_next = None, item_prev = Some (fst c)\<rparr>,
                 fst c \<mapsto> ct\<lparr>item_next := Some n\<rparr>,
                 n \<mapsto> \<lparr>process = p, item_next = None, item_prev = Some (fst c)\<rparr>)"
    have res: "copy_node malloc h nq p =
       Some (?h4, Some (nq\<lparr>q_bottom := Some n, q_size := q_size nq + 1\<rparr>))"
      using al top bot ct cn by (simp add: copy_node_def create_item_def Let_def)
    have "dseg ?h4 (q_top nq) None bs' (Some (fst c)) l'"
      using pre' c_bs' n_bs' by (simp add: dseg_upd_other)
    then have "queue_rep ?h4 (nq\<lparr>q_bottom := Some n, q_size := q_size nq + 1\<rparr>) (bs @ [(n, p)])"
      using snoc ct cn sz by (auto simp: queue_rep_def dseg_append)
    with res show ?thesis using snoc by auto
  qed
qed

lemma copy_loop_rep:
  assumes "dseg h item pr rest None lst" "queue_rep h nq bs" "allocator malloc"
    "fst ` set bs \<inter> fst ` set rest = {}"
  shows "\<exists>h' r. copy_loop malloc h item nq = Some (h', r) \<and>
     (case r of
        None \<Rightarrow> h' = (\<lambda>a. if a \<in> fst ` set bs then None else h a)
      | Some nq' \<Rightarrow>
          (\<exists>cs. queue_rep h' nq' (bs @ cs) \<and> map snd cs = map snd rest \<and>
             (\<forall>a \<in> fst ` set cs. h a = None) \<and>
             (\<forall>a. a \<notin> fst ` set cs \<longrightarrow> a \<notin> fst ` set bs \<longrightarrow> h' a = h a)))"
  using assms
proof (induction rest arbitrary: h item pr nq bs)
  case Nil
  then show ?case by (subst copy_loop.simps) simp
next
  case (Cons x rest)
  from Cons.prems(1) obtain it where item: "item = Some (fst x)" and it: "h (fst x) = Some it" "process it = snd x"
    and tl: "dseg h (item_next it) (Some (fst x)) rest None lst"
    by (auto split: option.splits)
  from it(1) tl have x_rest: "fst x \<notin> fst ` set rest" by (rule dseg_head_fresh)
  from Cons.prems(4) have x_bs: "fst x \<notin> fst ` set bs" and disj: "fst ` set bs \<inter> fst ` set rest = {}"
    by auto
  show ?case
  proof (cases "malloc h")
    case None
    from copy_node_fail [where malloc = malloc and p = "snd x", OF Cons.prems(2) None] item it
    show ?thesis by (subst copy_loop.simps) simp
  next
    case (Some n)
    with Cons.prems(3) have fresh: "h n = None" by (simp add: allocator_def)
    with it have nx: "n \<noteq> fst x" by auto
    from tl fresh have n_rest: "n \<notin> fst ` set rest" by (rule dseg_fresh)
    from copy_node_rep [where malloc = malloc and p = "snd x", OF Cons.prems(2) Some fresh] obtain h4 nq2 where
      cn: "copy_node malloc h nq (snd x) = Some (h4, Some nq2)"
      and rep4: "queue_rep h4 nq2 (bs @ [(n, snd x)])"
      and fr4: "\<forall>b. b \<noteq> n \<longrightarrow> b \<notin> fst ` set bs \<longrightarrow> h4 b = h b"
      by blast
    from fr4 nx x_bs it have it4: "h4 (fst x) = Some it" by simp
    have tl4: "dseg h4 (item_next it) (Some (fst x)) rest None lst"
      using tl
    proof (rule dseg_frame)
      show "\<forall>a\<in>fst ` set rest. h4 a = h a"
      proof
        fix a assume "a \<in> fst ` set rest"
        with n_rest disj have "a \<noteq> n" "a \<notin> fst ` set bs" by auto
        with fr4 show "h4 a = h a" by simp
      qed
    qed
    have disj4: "fst ` set (bs @ [(n, snd x)]) \<inter> fst ` set rest = {}"
      using disj n_rest by auto
    from Cons.IH [OF tl4 rep4 Cons.prems(3) disj4] obtain h' r where
      loop: "copy_loop malloc h4 (item_next it) nq2 = Some (h', r)"
      and r: "case r of
          None \<Rightarrow> h' = (\<lambda>a. if a \<in> fst ` set (bs @ [(n, snd x)]) then None else h4 a)
        | Some nq' \<Rightarrow>
            (\<exists>cs. queue_rep h' nq' ((bs @ [(n, snd x)]) @ cs) \<and> map snd cs = map snd rest \<and>
               (\<forall>a \<in> fst ` set cs. h4 a = None) \<and>
               (\<forall>a. a \<notin> fst ` set cs \<longrightarrow> a \<notin> fst ` set (bs @ [(n, snd x)]) \<longrightarrow> h' a = h4 a))"
      by blast
    have res: "copy_loop malloc h item nq = Some (h', r)"
      using item it cn it4 loop by (subst copy_loop.simps) simp
    show ?thesis
    proof (cases r)
      case None
      with r have "h' = (\<lambda>a. if a \<in> fst ` set (bs @ [(n, snd x)]) then None else h4 a)" by simp
      then have "h' = (\<lambda>a. if a \<in> fst ` set bs then None else h a)"
        using fr4 fresh by (auto simp: fun_eq_iff)
      with res None show ?thesis by simp
    next
      case (Some nq')
      with r obtain cs where cs: "queue_rep h' nq' ((bs @ [(n, snd x)]) @ cs)" "map snd cs = map snd rest"
        "\<forall>a \<in> fst ` set cs. h4 a = None"
        "\<forall>a. a \<notin> fst ` set cs \<longrightarrow> a \<notin> fst ` set (bs @ [(n, snd x)]) \<longrightarrow> h' a = h4 a"
        by auto
      from rep4 have "h4 n \<noteq> None"
        by (auto simp: queue_rep_def dseg_append split: option.splits)
      with cs(3) have n_cs: "n \<notin> fst ` set cs" by auto
      have "\<forall>a \<in> fst ` set ((n, snd x) # cs). h a = None"
      proof
        fix a assume a: "a \<in> fst ` set ((n, snd x) # cs)"
        show "h a = None"
        proof (cases "a = n")
          case True
          with fresh show ?thesis by simp
        next
          case False
          with a have acs: "a \<in> fst ` set cs" by auto
          with cs(3) have h4a: "h4 a = None" by auto
          have "a \<notin> fst ` set bs"
          proof
            assume "a \<in> fst ` set bs"
            then have "a \<in> fst ` set (bs @ [(n, snd x)])" by auto
            with rep4 have "h4 a \<noteq> None"
              using dseg_lookup [of h4 "q_top nq2" None "bs @ [(n, snd x)]" None "q_bottom nq2"]
              by (fastforce simp: queue_rep_def)
            with h4a show False by simp
          qed
          with fr4 False h4a show ?thesis by auto
        qed
      qed
      moreover have "\<forall>a. a \<notin> fst ` set ((n, snd x) # cs) \<longrightarrow> a \<notin> fst ` set bs \<longrightarrow> h' a = h a"
        using cs(4) fr4 by auto
      moreover have "queue_rep h' nq' (bs @ (n, snd x) # cs)" using cs(1) by simp
      moreover have "map snd ((n, snd x) # cs) = map snd (x # rest)" using cs(2) by simp
      ultimately show ?thesis using res Some
        by (auto intro!: exI [of _ "(n, snd x) # cs"])
    qed
  qed
qed

lemma copy_queue_rep:
  assumes rep: "queue_rep h source xs" and al: "allocator malloc"
  shows "\<exists>h' dest' ok. copy_queue malloc h dest source = Some (h', dest', ok) \<and>
     (if ok
      then \<exists>cs. queue_rep h' dest' cs \<and> map snd cs = map snd xs \<and>
             (\<forall>a \<in> fst ` set cs. h a = None) \<and> (\<forall>a. a \<notin> fst ` set cs \<longrightarrow> h' a = h a)
      else h' = h \<and> dest' = dest)"
proof -
  from rep have seg: "dseg h (q_top source) None xs None (q_bottom source)"
    by (simp add: queue_rep_def)
  have emp: "queue_rep h create_queue []" by (simp add: queue_rep_def create_queue_def)
  have "fst ` set ([] :: (addr \<times> process_type) list) \<inter> fst ` set xs = {}" by simp
  from copy_loop_rep [OF seg emp al this] obtain h' where "\<exists>r.
      copy_loop malloc h (q_top source) create_queue = Some (h', r) \<and>
      (case r of
        None \<Rightarrow> h' = (\<lambda>a. if a \<in> fst ` set ([] :: (addr \<times> process_type) list) then None else h a)
      | Some nq' \<Rightarrow>
          (\<exists>cs. queue_rep h' nq' ([] @ cs) \<and> map snd cs = map snd xs \<and>
             (\<forall>a \<in> fst ` set cs. h a = None) \<and>
             (\<forall>a. a \<notin> fst ` set cs \<longrightarrow> a \<notin> fst ` set ([] :: (addr \<times> process_type) list) \<longrightarrow> h' a = h a)))" ..
  then obtain r where both:
      "copy_loop malloc h (q_top source) create_queue = Some (h', r) \<and>
      (case r of
        None \<Rightarrow> h' = (\<lambda>a. if a \<in> fst ` set ([] :: (addr \<times> process_type) list) then None else h a)
      | Some nq' \<Rightarrow>
          (\<exists>cs. queue_rep h' nq' ([] @ cs) \<and> map snd cs = map snd xs \<and>
             (\<forall>a \<in> fst ` set cs. h a = None) \<and>
             (\<forall>a. a \<notin> fst ` set cs \<longrightarrow> a \<notin> fst ` set ([] :: (addr \<times> process_type) list) \<longrightarrow> h' a = h a)))" ..
  then have loop: "copy_loop malloc h (q_top source) create_queue = Some (h', r)"
    and r: "case r of
        None \<Rightarrow> h' = (\<lambda>a. if a \<in> fst ` set ([] :: (addr \<times> process_type) list) then None else h a)
      | Some nq' \<Rightarrow>
          (\<exists>cs. queue_rep h' nq' ([] @ cs) \<and> map snd cs = map snd xs \<and>
             (\<forall>a \<in> fst ` set cs. h a = None) \<and>
             (\<forall>a. a \<notin> fst ` set cs \<longrightarrow> a \<notin> fst ` set ([] :: (addr \<times> process_type) list) \<longrightarrow> h' a = h a))"
    by (rule conjunct1, rule conjunct2)
  show ?thesis
  proof (cases r)
    case None
    with loop r show ?thesis by (auto simp: copy_queue_def)
  next
    case (Some nq')
    with r obtain cs where cs: "queue_rep h' nq' cs" "map snd cs = map snd xs"
      "\<forall>a \<in> fst ` set cs. h a = None" "\<forall>a. a \<notin> fst ` set cs \<longrightarrow> h' a = h a"
      by auto
    from cs(1) have "queue_rep h' (dest\<lparr>q_top := q_top nq', q_bottom := q_bottom nq', q_size := q_size nq'\<rparr>) cs"
      by (simp add: queue_rep_def)
    with loop Some cs show ?thesis
      by (auto simp: copy_queue_def)
  qed
qed

section \<open>The invariant of reachable states\<close>

lemma queue_inv_frame:
  assumes "queue_inv h q xs" "\<forall>a \<in> fst ` set xs. h' a = h a"
  shows "queue_inv h' q xs"
  using assms by (auto simp: queue_inv_def queue_rep_def intro: dseg_frame)

lemma queue_inv_copy:
  assumes "queue_inv h q xs" "queue_rep h' q' cs" "map snd cs = map snd xs"
  shows "queue_inv h' q' cs"
proof -
  have "map (identity \<circ> snd) cs = map identity (map snd cs)" by simp
  also have "\<dots> = map (identity \<circ> snd) xs" by (simp add: assms(3))
  finally have 1: "map (identity \<circ> snd) cs = map (identity \<circ> snd) xs" .
  have "list_all (nice_ok \<circ> snd) cs = list_all nice_ok (map snd cs)"
    by (simp add: list_all_iff)
  also have "\<dots> = list_all (nice_ok \<circ> snd) xs"
    by (simp add: assms(3) list_all_iff)
  finally have 2: "list_all (nice_ok \<circ> snd) cs = list_all (nice_ok \<circ> snd) xs" .
  from assms 1 2 show ?thesis by (simp add: queue_inv_def)
qed

lemma queue_inv_live:
  "queue_inv h q xs \<Longrightarrow> a \<in> fst ` set xs \<Longrightarrow> h a \<noteq> None"
  by (auto simp: queue_inv_def queue_rep_def dest: dseg_lookup)

lemma push_to_queue_nice:
  "push_to_queue malloc h q p = Some r \<Longrightarrow> nice_ok p"
  by (auto simp: push_to_queue_def nice_ok_def split: if_splits)

lemma renice_range:
  "renice malloc h q cb cx nice = Some r \<Longrightarrow> 10 \<le> nice \<and> nice \<le> 49"
  by (auto simp: renice_def split: if_splits)

lemma reachable_queue_inv: "reachable h q \<Longrightarrow> \<exists>xs. queue_inv h q xs"
proof (induction rule: reachable.induct)
  case (created h)
  show ?case using queue_inv_create by blast
next
  case (pushed_to h q malloc p h' q' r)
  then obtain xs where inv: "queue_inv h q xs" by blast
  then have rep: "queue_rep h q xs" by (simp add: queue_inv_def)
  from pushed_to.hyps(3) have nice: "nice_ok p" by (rule push_to_queue_nice)
  from push_to_queue_rep [OF rep pushed_to.hyps(2) nice] pushed_to.hyps(3)
  have "queue_rep h' q' (pushed xs (malloc h) p)" by auto
  with inv have "queue_inv h' q' (pushed xs (malloc h) p)" using nice by (rule queue_inv_pushed)
  then show ?case by blast
next
  case (popped h q out cm h' q' found written)
  then obtain xs where inv: "queue_inv h q xs" by blast
  then have rep: "queue_rep h q xs" by (simp add: queue_inv_def)
  show ?case
  proof (cases "find (\<lambda>x. cpu_mask (snd x) AND cm \<noteq> 0) xs")
    case None
    from pop_top_none [OF rep None, of out] popped.hyps(3) inv show ?thesis by auto
  next
    case (Some x)
    from popped.hyps(2) have "out = out_null \<or> out = out_local \<or> out = out_node (fst x)" by blast
    from pop_top_rep [OF rep Some this] popped.hyps(3)
    have "queue_rep h' q' (remove1 x xs)" by auto
    with inv find_Some_set [OF Some] have "queue_inv h' q' (remove1 x xs)"
      by (blast intro: queue_inv_remove1)
    then show ?thesis by blast
  qed
next
  case (reniced h q malloc cb cx nice h' q' found)
  then obtain xs where inv: "queue_inv h q xs" by blast
  then have rep: "queue_rep h q xs" by (simp add: queue_inv_def)
  from reniced.hyps(3) have rng: "10 \<le> nice \<and> nice \<le> 49" by (rule renice_range)
  show ?case
  proof (cases "find (\<lambda>x. identity (snd x) = (cb, cx)) xs")
    case None
    from renice_absent [OF rep rng None, of malloc] reniced.hyps(3) inv show ?thesis by auto
  next
    case (Some x)
    from renice_present [OF inv reniced.hyps(2) rng Some] reniced.hyps(3)
    show ?thesis by auto
  qed
next
  case (cleared h q h' q')
  then obtain xs where inv: "queue_inv h q xs" by blast
  then have rep: "queue_rep h q xs" by (simp add: queue_inv_def)
  from clear_queue_rep [OF rep] cleared.hyps(2) queue_inv_empty [of h' q]
  show ?case by auto
next
  case (ran h q malloc call cm run_time h' q' left invoked)
  then obtain xs where inv: "queue_inv h q xs" by blast
  then have rep: "queue_rep h q xs" by (simp add: queue_inv_def)
  show ?case
  proof (cases "find (\<lambda>x. cpu_mask (snd x) AND cm \<noteq> 0) xs")
    case None
    from run_top_none [OF rep None, of malloc call run_time] ran.hyps(3) inv show ?thesis by auto
  next
    case (Some x)
    show ?thesis
    proof (cases "call (callback (snd x)) run_time (ctx (snd x)) = 0")
      case True
      from run_top_done [where call = call and run_time = run_time and malloc = malloc, OF inv Some True]
        ran.hyps(3) show ?thesis by auto
    next
      case False
      from run_top_requeue [where call = call and run_time = run_time, OF inv ran.hyps(2) Some refl False refl]
        ran.hyps(3)
      show ?thesis by auto
    qed
  qed
next
  case (copied h source malloc dest h' dest')
  then obtain xs where inv: "queue_inv h source xs" by blast
  then have rep: "queue_rep h source xs" by (simp add: queue_inv_def)
  from copy_queue_rep [OF rep copied.hyps(2), of dest] copied.hyps(3)
  obtain cs where "queue_rep h' dest' cs" "map snd cs = map snd xs" by auto
  with inv have "queue_inv h' dest' cs" by (rule queue_inv_copy)
  then show ?case by blast
next
  case (copied_from h source malloc dest h' dest' ok)
  then obtain xs where inv: "queue_inv h source xs" by blast
  then have rep: "queue_rep h source xs" by (simp add: queue_inv_def)
  have "\<forall>a \<in> fst ` set xs. h' a = h a"
  proof (cases ok)
    case True
    with copy_queue_rep [OF rep copied_from.hyps(2), of dest] copied_from.hyps(3)
    obtain cs :: "(addr \<times> process_type) list"
      where cs: "\<forall>a \<in> fst ` set cs. h a = None" "\<forall>a. a \<notin> fst ` set cs \<longrightarrow> h' a = h a"
      by auto
    show ?thesis
    proof
      fix a assume "a \<in> fst ` set xs"
      with inv have "h a \<noteq> None" by (rule queue_inv_live)
      with cs(1) have "a \<notin> fst ` set cs" by auto
      with cs(2) show "h' a = h a" by simp
    qed
  next
    case False
    with copy_queue_rep [OF rep copied_from.hyps(2), of dest] copied_from.hyps(3)
    show ?thesis by auto
  qed
  with inv have "queue_inv h' source xs" by (rule queue_inv_frame)
  then show ?case by blast
qed

section \<open>The comparator of the code and the comparator of the specification\<close>

text \<open>
  On processes whose scores fit 32 bits the code's comparator is the specification's,
  and so are the order of a chain and the place of a new entry.
\<close>

lemma process_evaluation_outranks:
  assumes "no_wrap a" "no_wrap b"
  shows "process_evaluation a b = outranks a b"
  using assms process_evaluation_score [of a b] by (auto simp: no_wrap_def outranks_def)

lemma in_order_sorted_by_score:
  assumes "list_all no_wrap ps"
  shows "in_order ps = sorted_by_score ps"
  using assms
  by (induction ps) (auto simp: in_order_def sorted_by_score_def list_all_iff process_evaluation_outranks)

lemma insert_entry_by_score:
  assumes "no_wrap (snd x)" "list_all (no_wrap \<circ> snd) xs"
  shows "insert_entry x xs = insert_by_score x xs"
proof -
  have "\<not> process_evaluation (snd x) (snd y) \<longleftrightarrow> \<not> outranks (snd x) (snd y)" if "y \<in> set xs" for y
    using that assms by (simp add: list_all_iff process_evaluation_outranks)
  then have "takeWhile (\<lambda>y. \<not> process_evaluation (snd x) (snd y)) xs =
        takeWhile (\<lambda>y. \<not> outranks (snd x) (snd y)) xs"
    and "dropWhile (\<lambda>y. \<not> process_evaluation (snd x) (snd y)) xs =
        dropWhile (\<lambda>y. \<not> outranks (snd x) (snd y)) xs"
    by (auto intro: takeWhile_cong dropWhile_cong)
  then show ?thesis by (simp add: insert_entry_def insert_by_score_def)
qed

text \<open>
  The chain after a successful push of \<open>p\<close> into a queue in comparator order: the new
  entry somewhere between the entries that were there, which keep their order; at the
  sorted position of the specification when no score wraps.
\<close>

lemma queue_inv_inserted:
  assumes inv: "queue_inv h q (insert_entry (n, p) xs)"
  shows "\<exists>us vs. xs = us @ vs \<and> queue_inv h q (us @ (n, p) # vs) \<and>
     (list_all (no_wrap \<circ> snd) ((n, p) # xs) \<longrightarrow>
        us @ (n, p) # vs = insert_by_score (n, p) xs \<and>
        sorted_by_score (map snd (us @ (n, p) # vs)))"
proof -
  from insert_entry_split [of xs "(n, p)"] obtain us vs where
    xs: "xs = us @ vs" and ins: "insert_entry (n, p) xs = us @ (n, p) # vs"
    by blast
  have "us @ (n, p) # vs = insert_by_score (n, p) xs \<and> sorted_by_score (map snd (us @ (n, p) # vs))"
    if nw: "list_all (no_wrap \<circ> snd) ((n, p) # xs)"
  proof -
    from nw have "no_wrap (snd (n, p))" "list_all (no_wrap \<circ> snd) xs" by simp_all
    then have eq: "insert_entry (n, p) xs = insert_by_score (n, p) xs" by (rule insert_entry_by_score)
    from nw xs have "list_all no_wrap (map snd (us @ (n, p) # vs))"
      by (auto simp: list_all_iff)
    from in_order_sorted_by_score [OF this] inv ins
    have "sorted_by_score (map snd (us @ (n, p) # vs))" by (simp add: queue_inv_def)
    with eq ins show ?thesis by simp
  qed
  with xs inv ins show ?thesis by auto
qed

section \<open>The claims\<close>

lemmas eval_defs = run_top_def get_top_def get_top_loop.simps pop_top_def pop_top_loop.simps
  pop_top_item_def write_out_def pop_item_def clear_queue_def clear_loop.simps push_to_queue_def
  create_item_def processes_are_valid_def processes_are_valid_loop.simps push_loop.simps
  insert_before_def append_bottom_def renice_def renice_loop.simps renice_item_def
  malloc_fails_def malloc_in_def Let_def

lemma allocator_malloc_in: "allocator (malloc_in candidates)"
  by (auto simp: allocator_def malloc_in_def dest: find_Some_set)

lemma allocator_malloc_fails: "allocator malloc_fails"
  by (simp add: allocator_def malloc_fails_def)

lemma nice_ok_proc_a: "nice_ok proc_a"
  by (simp add: nice_ok_def proc_a_def)

lemma queue_inv_a: "queue_inv store_a queue_a [(1, proc_a)]"
  by (simp add: queue_inv_def queue_rep_def in_order_def store_a_def queue_a_def nice_ok_proc_a)

text \<open>
  Every reachable state is a well-linked chain in the order of the comparator as the
  code computes it, the size field is the length of the chain, and top and bottom are
  null exactly when the size is 0.
\<close>

lemma reachable_chain:
  assumes "reachable h q"
  shows "\<exists>xs. dseg h (q_top q) None xs None (q_bottom q) \<and> in_order (map snd xs) \<and>
           q_size q = length xs \<and>
           ((q_top q = None) = (q_size q = 0)) \<and> ((q_bottom q = None) = (q_size q = 0))"
proof -
  from assms obtain xs where inv: "queue_inv h q xs" by (blast dest: reachable_queue_inv)
  then have seg: "dseg h (q_top q) None xs None (q_bottom q)" and sz: "q_size q = length xs"
    and ord: "in_order (map snd xs)"
    by (simp_all add: queue_inv_def queue_rep_def)
  from dseg_first [OF seg] have "(q_top q = None) = (xs = [])" by (cases xs) simp_all
  moreover from dseg_last [OF seg] have "(q_bottom q = None) = (xs = [])" by (cases xs) simp_all
  ultimately show ?thesis using seg sz ord by auto
qed

lemma push_proc_short:
  "push_to_queue (malloc_in [1, 2]) Map.empty create_queue proc_short =
     Some (store_short, queue_short, push_success)"
  by (simp add: push_to_queue_def create_item_def create_queue_def malloc_in_def proc_short_def
      store_short_def queue_short_def)

lemma push_proc_long:
  "push_to_queue (malloc_in [1, 2]) store_short queue_short proc_long =
     Some (store_long_short, queue_long_short, push_success)"
  by (simp add: eval_defs process_evaluation_def proc_short_def proc_long_def
      store_short_def queue_short_def store_long_short_def queue_long_short_def fun_eq_iff)

lemma reachable_long_short: "reachable store_long_short queue_long_short"
  by (rule reachable.pushed_to [OF reachable.pushed_to
        [OF reachable.created allocator_malloc_in push_proc_short] allocator_malloc_in push_proc_long])

text \<open>
  Claim C1: in every reachable queue state the node chain is sorted so that no later
  entry outranks an earlier one under the comparator (score = niceness * remaining_time
  ascending, set-bit count of the mask ascending on ties), the size field equals the
  number of nodes of the chain, and top and bottom are null if and only if the size is 0.
  The code compares the scores after an \<^verbatim>\<open>unsigned int\<close> multiplication. Two pushes
  with niceness 10 into the empty queue, of a process with 1 unit left (score 10) and
  then of a process with 429496730 units left (score 4294967300, which the code takes
  for 4), both succeed and leave the second process in front of the first: a reachable
  chain in which the later entry outranks the earlier one.
\<close>

theorem reachable_not_sorted_by_score:
  "nice_ok proc_short \<and> nice_ok proc_long \<and>
   push_to_queue (malloc_in [1, 2]) Map.empty create_queue proc_short =
     Some (store_short, queue_short, push_success) \<and>
   push_to_queue (malloc_in [1, 2]) store_short queue_short proc_long =
     Some (store_long_short, queue_long_short, push_success) \<and>
   reachable store_long_short queue_long_short \<and>
   queue_rep store_long_short queue_long_short [(2, proc_long), (1, proc_short)] \<and>
   score proc_long = 4294967300 \<and> score proc_short = 10 \<and>
   outranks proc_short proc_long \<and> \<not> sorted_by_score [proc_long, proc_short]"
proof -
  have "nice_ok proc_short" "nice_ok proc_long"
    by (simp_all add: nice_ok_def proc_short_def proc_long_def)
  moreover have "queue_rep store_long_short queue_long_short [(2, proc_long), (1, proc_short)]"
    by (simp add: queue_rep_def store_long_short_def queue_long_short_def)
  moreover have s: "score proc_long = 4294967300" "score proc_short = 10"
    by (simp_all add: score_def proc_short_def proc_long_def)
  moreover from s have "outranks proc_short proc_long" "\<not> sorted_by_score [proc_long, proc_short]"
    by (simp_all add: outranks_def sorted_by_score_def)
  ultimately show ?thesis
    using push_proc_short push_proc_long reachable_long_short by simp
qed

lemma find_distinct_key:
  "distinct (map f xs) \<Longrightarrow> x \<in> set xs \<Longrightarrow> find (\<lambda>y. f y = f x) xs = Some x"
  by (induction xs) (auto simp: image_iff)

lemma classify_present:
  assumes "distinct (map identity ps)" "p \<in> set ps" "identity proc = identity p"
  shows "classify ps proc =
     (if remaining_time proc = remaining_time p \<and> niceness proc = niceness p \<and> cpu_mask proc = cpu_mask p
      then push_duplicate else push_inconsistent)"
proof -
  from find_distinct_key [OF assms(1,2)] assms(3)
  have "find (\<lambda>p'. identity p' = identity proc) ps = Some p" by simp
  then show ?thesis by (auto simp: classify_def)
qed

text \<open>
  Claim C3: for a non-empty queue, pushing a process whose (callback, context)
  identity matches an already queued entry returns duplicate when remaining_time,
  niceness and cpu_mask all match as well, and inconsistent when one of them differs;
  in both cases the store and the queue are returned unchanged.
\<close>

theorem push_existing_identity:
  assumes inv: "queue_inv h q xs" and mem: "(a, p) \<in> set xs"
    and id: "identity proc = identity p" and nice: "nice_ok proc"
  shows "push_to_queue malloc h q proc =
     Some (h, q,
       if remaining_time proc = remaining_time p \<and> niceness proc = niceness p \<and>
          cpu_mask proc = cpu_mask p
       then push_duplicate else push_inconsistent)"
proof -
  from inv have seg: "dseg h (q_top q) None xs None (q_bottom q)"
    and dist: "distinct (map (identity \<circ> snd) xs)"
    by (simp_all add: queue_inv_def queue_rep_def)
  from mem seg obtain t where top: "q_top q = Some t" by (cases xs) auto
  from nice have rng: "10 \<le> niceness proc \<and> niceness proc \<le> 49" by (simp add: nice_ok_def)
  have valid: "processes_are_valid h q proc = Some (classify (map snd xs) proc)"
    unfolding processes_are_valid_def using seg by (rule processes_are_valid_loop_dseg)
  from dist have "distinct (map identity (map snd xs))" by simp
  moreover from mem have "p \<in> set (map snd xs)" by force
  ultimately have cl: "classify (map snd xs) proc =
     (if remaining_time proc = remaining_time p \<and> niceness proc = niceness p \<and> cpu_mask proc = cpu_mask p
      then push_duplicate else push_inconsistent)"
    using id by (rule classify_present)
  show ?thesis
    using top rng valid by (simp add: push_to_queue_def cl)
qed

theorem push_existing_identity_witness:
  "queue_inv store_a queue_a [(1, proc_a)] \<and>
   push_to_queue malloc_fails store_a queue_a proc_a = Some (store_a, queue_a, push_duplicate) \<and>
   push_to_queue malloc_fails store_a queue_a (proc_a\<lparr>niceness := 16\<rparr>) =
     Some (store_a, queue_a, push_inconsistent)"
proof -
  have 1: "(1, proc_a) \<in> set [(1 :: addr, proc_a)]" by simp
  have 2: "identity (proc_a\<lparr>niceness := 16\<rparr>) = identity proc_a" by (simp add: identity_def)
  have 3: "nice_ok (proc_a\<lparr>niceness := 16\<rparr>)" by (simp add: nice_ok_def)
  from push_existing_identity [OF queue_inv_a 1 refl nice_ok_proc_a, of malloc_fails]
    push_existing_identity [OF queue_inv_a 1 2 3, of malloc_fails] queue_inv_a
  show ?thesis by (simp add: proc_a_def)
qed

text \<open>
  Claim C6: \<^verbatim>\<open>get_top\<close> returns the earliest node in queue order whose cpu_mask has
  a non-zero bitwise AND with the requested mask, or nothing when there is none (it only
  reads: the function returns a pointer and no store); \<^verbatim>\<open>pop_top\<close> does the same scan
  and, on a match, removes exactly that node and hands out its process, and otherwise
  reports no match and leaves store and queue unchanged.
\<close>

theorem selector:
  assumes rep: "queue_rep h q xs" and out: "out = out_null \<or> out = out_local"
  shows "get_top h q cm = Some (map_option fst (find (\<lambda>x. cpu_mask (snd x) AND cm \<noteq> 0) xs)) \<and>
     (case find (\<lambda>x. cpu_mask (snd x) AND cm \<noteq> 0) xs of
        None \<Rightarrow> pop_top h q cm out = Some (h, q, False, None)
      | Some x \<Rightarrow>
          (\<exists>ys zs. xs = ys @ x # zs \<and> list_all (\<lambda>y. cpu_mask (snd y) AND cm = 0) ys) \<and>
          (\<exists>h' q'. pop_top h q cm out =
               Some (h', q', True, if out = out_local then Some (snd x) else None) \<and>
             queue_rep h' q' (remove1 x xs) \<and> h' (fst x) = None \<and>
             list_all (\<lambda>y. h' (fst y) \<noteq> None) (remove1 x xs)))"
proof (cases "find (\<lambda>x. cpu_mask (snd x) AND cm \<noteq> 0) xs")
  case None
  with get_top_rep [OF rep, of cm] pop_top_none [OF rep None, of out] show ?thesis by simp
next
  case (Some x)
  from find_Some_split [OF Some] obtain ys zs where
    "xs = ys @ x # zs" "\<forall>z \<in> set ys. \<not> cpu_mask (snd z) AND cm \<noteq> 0"
    by blast
  then have first: "\<exists>ys zs. xs = ys @ x # zs \<and> list_all (\<lambda>y. cpu_mask (snd y) AND cm = 0) ys"
    by (auto simp: list_all_iff)
  from out have "out = out_null \<or> out = out_local \<or> out = out_node (fst x)" by blast
  from pop_top_rep [OF rep Some this] obtain h' q' where
    pt: "pop_top h q cm out = Some (h', q', True, if out = out_local then Some (snd x) else None)"
    and rep': "queue_rep h' q' (remove1 x xs)" and gone: "h' (fst x) = None"
    by blast
  from rep' have "list_all (\<lambda>y. h' (fst y) \<noteq> None) (remove1 x xs)"
    by (auto simp: queue_rep_def list_all_iff dest: dseg_lookup [where a = "fst y" and p = "snd y" for y])
  with get_top_rep [OF rep, of cm] Some first pt rep' gone show ?thesis by auto
qed

lemma queue_rep_ab: "queue_rep store_ab queue_ab [(2, proc_b), (1, proc_a)]"
  by (simp add: queue_rep_def store_ab_def queue_ab_def)

theorem selector_witness:
  "queue_rep store_ab queue_ab [(2, proc_b), (1, proc_a)] \<and>
   get_top store_ab queue_ab 1 = Some (Some 1) \<and>
   get_top store_ab queue_ab 4 = Some None \<and>
   pop_top store_ab queue_ab 4 out_local = Some (store_ab, queue_ab, False, None) \<and>
   (\<exists>h' q'. pop_top store_ab queue_ab 1 out_local = Some (h', q', True, Some proc_a) \<and>
      queue_rep h' q' [(2, proc_b)] \<and> h' 1 = None)"
proof -
  have out: "out_local = out_null \<or> out_local = out_local" by simp
  have 1: "find (\<lambda>x. cpu_mask (snd x) AND 1 \<noteq> 0) [(2 :: addr, proc_b), (1, proc_a)] = Some (1, proc_a)"
    by (simp add: proc_a_def proc_b_def)
  have 4: "find (\<lambda>x. cpu_mask (snd x) AND 4 \<noteq> 0) [(2 :: addr, proc_b), (1, proc_a)] = None"
    by (simp add: proc_a_def proc_b_def)
  have ne: "(2 :: addr, proc_b) \<noteq> (1, proc_a)" by simp
  from selector [OF queue_rep_ab out, of 1] selector [OF queue_rep_ab out, of 4] queue_rep_ab
  show ?thesis unfolding 1 4 using ne by auto
qed

lemma not_outranks_a_b: "\<not> process_evaluation proc_a proc_b"
  by (simp add: process_evaluation_def proc_a_def proc_b_def)

lemma queue_inv_ab: "queue_inv store_ab queue_ab [(2, proc_b), (1, proc_a)]"
  using queue_rep_ab not_outranks_a_b
  by (simp add: queue_inv_def in_order_def identity_def nice_ok_def proc_a_def proc_b_def)

lemma get_top_find:
  assumes "queue_rep h q xs" "get_top h q cm = Some (Some a)"
  shows "\<exists>x. find (\<lambda>x. cpu_mask (snd x) AND cm \<noteq> 0) xs = Some x \<and> fst x = a"
proof (cases "find (\<lambda>x. cpu_mask (snd x) AND cm \<noteq> 0) xs")
  case None
  with get_top_rep [OF assms(1), of cm] assms(2) show ?thesis by simp
next
  case (Some x)
  with get_top_rep [OF assms(1), of cm] assms(2) show ?thesis by simp
qed

text \<open>
  Claim C10: whenever \<^verbatim>\<open>run_top\<close> invokes a callback, it is the callback of the
  process that \<^verbatim>\<open>get_top\<close> returns (the earliest eligible one), with that process's
  context, and the node then removed (and, on a non-zero return, the process pushed
  again with the new remaining_time) is this same one, although the removal scans the
  queue again after remaining_time was written in place.
\<close>

theorem run_top_same_process:
  assumes inv: "queue_inv h q xs" and al: "allocator malloc" and gt: "get_top h q cm = Some (Some a)"
  shows "\<exists>it. h a = Some it \<and>
     (let p = process it; v = call (callback p) run_time (ctx p);
          p' = p\<lparr>remaining_time :=
                  (if remaining_time p > run_time then remaining_time p - run_time + v else v)\<rparr>
      in if v = 0
         then \<exists>h' q'. pop_item h q a = Some (h', q') \<and> h' a = None \<and>
                run_top malloc call h q cm run_time =
                  Some (h', q', 0, Some (callback p, run_time, ctx p))
         else \<exists>h2 q2 h3 q3 r.
                pop_item (h(a \<mapsto> it\<lparr>process := p'\<rparr>)) q a = Some (h2, q2) \<and> h2 a = None \<and>
                push_to_queue malloc h2 q2 p' = Some (h3, q3, r) \<and>
                run_top malloc call h q cm run_time =
                  Some (h3, q3, remaining_time p', Some (callback p, run_time, ctx p)))"
proof -
  from inv have rep: "queue_rep h q xs" by (simp add: queue_inv_def)
  then have seg: "dseg h (q_top q) None xs None (q_bottom q)" by (simp add: queue_rep_def)
  from get_top_find [OF rep gt] obtain x where
    f: "find (\<lambda>x. cpu_mask (snd x) AND cm \<noteq> 0) xs = Some x" and a: "fst x = a"
    by blast
  from find_Some_set [OF f] have "(fst x, snd x) \<in> set xs" by simp
  from dseg_lookup [OF seg this] a obtain it where it: "h a = Some it" "process it = snd x"
    by auto
  let ?v = "call (callback (snd x)) run_time (ctx (snd x))"
  let ?p' = "(snd x)\<lparr>remaining_time :=
      (if remaining_time (snd x) > run_time then remaining_time (snd x) - run_time + ?v else ?v)\<rparr>"
  show ?thesis
  proof (cases "?v = 0")
    case True
    from run_top_done [where call = call and run_time = run_time and malloc = malloc, OF inv f True]
    show ?thesis using it a True by (auto simp: Let_def)
  next
    case False
    from run_top_requeue [where call = call and run_time = run_time, OF inv al f refl False refl]
    show ?thesis using it a False by (auto simp: Let_def)
  qed
qed

theorem run_top_same_process_witness:
  "queue_inv store_ab queue_ab [(2, proc_b), (1, proc_a)] \<and> allocator (malloc_in [5]) \<and>
   get_top store_ab queue_ab 1 = Some (Some 1) \<and>
   (\<exists>h2 q2 h3 q3 r.
      pop_item (store_ab(1 \<mapsto> \<lparr>process = proc_a\<lparr>remaining_time := 6\<rparr>, item_next = None,
                               item_prev = Some 2\<rparr>)) queue_ab 1 = Some (h2, q2) \<and>
      h2 1 = None \<and>
      push_to_queue (malloc_in [5]) h2 q2 (proc_a\<lparr>remaining_time := 6\<rparr>) = Some (h3, q3, r) \<and>
      run_top (malloc_in [5]) (\<lambda>cb t cx. 3) store_ab queue_ab 1 5 = Some (h3, q3, 6, Some (1, 5, 1)))"
proof -
  have gt: "get_top store_ab queue_ab 1 = Some (Some 1)"
    using get_top_rep [OF queue_rep_ab, of 1] by (simp add: proc_a_def proc_b_def)
  have s: "store_ab 1 = Some \<lparr>process = proc_a, item_next = None, item_prev = Some 2\<rparr>"
    by (simp add: store_ab_def)
  from run_top_same_process [OF queue_inv_ab allocator_malloc_in gt, of "\<lambda>cb t cx. 3" 5]
  have "\<exists>h2 q2 h3 q3 r.
      pop_item (store_ab(1 \<mapsto> \<lparr>process = proc_a\<lparr>remaining_time := 6\<rparr>, item_next = None,
                               item_prev = Some 2\<rparr>)) queue_ab 1 = Some (h2, q2) \<and>
      h2 1 = None \<and>
      push_to_queue (malloc_in [5]) h2 q2 (proc_a\<lparr>remaining_time := 6\<rparr>) = Some (h3, q3, r) \<and>
      run_top (malloc_in [5]) (\<lambda>cb t cx. 3) store_ab queue_ab 1 5 = Some (h3, q3, 6, Some (1, 5, 1))"
    unfolding s by (simp add: Let_def proc_a_def)
  with queue_inv_ab allocator_malloc_in gt show ?thesis by blast
qed

lemma find_mask_ab_1:
  "find (\<lambda>x. cpu_mask (snd x) AND 1 \<noteq> 0) [(2 :: addr, proc_b), (1, proc_a)] = Some (1, proc_a)"
  by (simp add: proc_a_def proc_b_def)

lemma find_mask_ab_4:
  "find (\<lambda>x. cpu_mask (snd x) AND 4 \<noteq> 0) [(2 :: addr, proc_b), (1, proc_a)] = None"
  by (simp add: proc_a_def proc_b_def)

text \<open>
  Claim C5: \<^verbatim>\<open>run_top\<close> returns 0 exactly in two cases: when no queued process's
  cpu_mask intersects the requested mask, and when the invoked callback returns 0. The
  code returns 0 in a third case: the callback returns a non-zero value and the new
  remaining_time, computed in \<^verbatim>\<open>unsigned int\<close>, wraps to 0. Here 8 units are left, the
  quantum is 5 and the callback returns 4294967293: the process stays queued with
  remaining_time 0 and \<^verbatim>\<open>run_top\<close> returns 0.
\<close>

theorem run_top_zero_counterexample:
  "get_top store_a queue_a 1 = Some (Some 1) \<and>
   run_top (malloc_in [1]) (\<lambda>cb t cx. 4294967293) store_a queue_a 1 5 =
     Some (Map.empty(1 \<mapsto> \<lparr>process = proc_a\<lparr>remaining_time := 0\<rparr>, item_next = None, item_prev = None\<rparr>),
           queue_a, 0, Some (1, 5, 1))"
proof -
  have wrap: "(4294967296 :: 32 word) = 0" by simp
  show ?thesis by (simp add: eval_defs store_a_def queue_a_def proc_a_def wrap)
qed

text \<open>
  Claim C5 as amended: \<^verbatim>\<open>run_top\<close> returns, and it returns 0 exactly in three cases:
  no queued process's cpu_mask intersects the requested mask (then no callback is
  invoked and store and queue are unchanged); the invoked callback returns 0 (then the
  entry of that identity is removed and the size decreases by exactly 1); the callback
  returns a non-zero value \<open>v\<close>, the prior remaining_time exceeds the quantum and
  \<open>remaining_time - quantum + v\<close> is 0 modulo \<open>2 ^ 32\<close>.
\<close>

theorem run_top_zero:
  assumes inv: "queue_inv h q xs" and al: "allocator malloc"
  shows "\<exists>h' q' left invoked.
     run_top malloc call h q cm run_time = Some (h', q', left, invoked) \<and>
     (case find (\<lambda>x. cpu_mask (snd x) AND cm \<noteq> 0) xs of
        None \<Rightarrow> left = 0 \<and> invoked = None \<and> h' = h \<and> q' = q
      | Some x \<Rightarrow>
          invoked = Some (callback (snd x), run_time, ctx (snd x)) \<and>
          (let v = call (callback (snd x)) run_time (ctx (snd x)) in
           if v = 0
           then left = 0 \<and> queue_inv h' q' (remove1 x xs) \<and> Suc (q_size q') = q_size q \<and>
                identity (snd x) \<notin> identity ` snd ` set (remove1 x xs)
           else (left = 0) =
                (remaining_time (snd x) > run_time \<and> remaining_time (snd x) - run_time + v = 0)))"
proof (cases "find (\<lambda>x. cpu_mask (snd x) AND cm \<noteq> 0) xs")
  case None
  from inv have "queue_rep h q xs" by (simp add: queue_inv_def)
  from run_top_none [OF this None, of malloc call run_time] None show ?thesis by simp
next
  case (Some x)
  let ?v = "call (callback (snd x)) run_time (ctx (snd x))"
  show ?thesis
  proof (cases "?v = 0")
    case True
    from run_top_done [where call = call and run_time = run_time and malloc = malloc, OF inv Some True]
    obtain h' q' where res: "run_top malloc call h q cm run_time =
        Some (h', q', 0, Some (callback (snd x), run_time, ctx (snd x)))"
      and inv': "queue_inv h' q' (remove1 x xs)"
      by blast
    from find_Some_set [OF Some] have mem: "x \<in> set xs" by simp
    from split_list_first [OF mem] obtain ys zs where xs: "xs = ys @ x # zs" and "x \<notin> set ys"
      by blast
    then have rm: "remove1 x xs = ys @ zs" by (simp add: remove1_append)
    from inv xs have "distinct (map (identity \<circ> snd) (ys @ x # zs))" by (simp add: queue_inv_def)
    then have id: "identity (snd x) \<notin> identity ` snd ` set (remove1 x xs)"
      unfolding rm by (auto simp: image_iff)
    from inv inv' have "q_size q = length xs" "q_size q' = length (remove1 x xs)"
      by (simp_all add: queue_inv_def queue_rep_def)
    with xs rm have sz: "Suc (q_size q') = q_size q" by simp
    from res inv' id sz Some True show ?thesis by simp
  next
    case False
    from run_top_requeue [where call = call and run_time = run_time, OF inv al Some refl False refl]
    obtain h3 q3 where "run_top malloc call h q cm run_time =
        Some (h3, q3,
          remaining_time ((snd x)\<lparr>remaining_time :=
            (if remaining_time (snd x) > run_time then remaining_time (snd x) - run_time + ?v else ?v)\<rparr>),
          Some (callback (snd x), run_time, ctx (snd x)))"
      by blast
    with Some False show ?thesis by simp
  qed
qed

theorem run_top_zero_witness:
  "queue_inv store_ab queue_ab [(2, proc_b), (1, proc_a)] \<and> allocator (malloc_in [5]) \<and>
   (\<exists>h' q'. run_top (malloc_in [5]) (\<lambda>cb t cx. 0) store_ab queue_ab 1 5 = Some (h', q', 0, Some (1, 5, 1)) \<and>
      queue_inv h' q' [(2, proc_b)] \<and> Suc (q_size q') = q_size queue_ab) \<and>
   run_top (malloc_in [5]) (\<lambda>cb t cx. 0) store_ab queue_ab 4 5 = Some (store_ab, queue_ab, 0, None) \<and>
   (\<exists>h' q' left. run_top (malloc_in [5]) (\<lambda>cb t cx. 3) store_ab queue_ab 1 5 =
      Some (h', q', left, Some (1, 5, 1)) \<and> left \<noteq> 0)"
proof -
  have ne: "(2 :: addr, proc_b) \<noteq> (1, proc_a)" by simp
  have cb: "callback proc_a = 1" "ctx proc_a = 1" "remaining_time proc_a = 8"
    by (simp_all add: proc_a_def)
  from run_top_zero [where malloc = "malloc_in [5]" and call = "\<lambda>cb t cx. 0" and cm = 1 and run_time = 5,
      OF queue_inv_ab allocator_malloc_in]
  have 1: "\<exists>h' q'. run_top (malloc_in [5]) (\<lambda>cb t cx. 0) store_ab queue_ab 1 5 = Some (h', q', 0, Some (1, 5, 1)) \<and>
      queue_inv h' q' [(2, proc_b)] \<and> Suc (q_size q') = q_size queue_ab"
    unfolding find_mask_ab_1 using ne by (auto simp: cb)
  from run_top_zero [where malloc = "malloc_in [5]" and call = "\<lambda>cb t cx. 0" and cm = 4 and run_time = 5,
      OF queue_inv_ab allocator_malloc_in]
  have 2: "run_top (malloc_in [5]) (\<lambda>cb t cx. 0) store_ab queue_ab 4 5 = Some (store_ab, queue_ab, 0, None)"
    unfolding find_mask_ab_4 by auto
  from run_top_zero [where malloc = "malloc_in [5]" and call = "\<lambda>cb t cx. 3" and cm = 1 and run_time = 5,
      OF queue_inv_ab allocator_malloc_in]
  have 3: "\<exists>h' q' left. run_top (malloc_in [5]) (\<lambda>cb t cx. 3) store_ab queue_ab 1 5 =
      Some (h', q', left, Some (1, 5, 1)) \<and> left \<noteq> 0"
    unfolding find_mask_ab_1 by (auto simp: cb)
  from queue_inv_ab allocator_malloc_in 1 2 3 show ?thesis by blast
qed

lemma queue_inv_short_b: "queue_inv store_short_b queue_short_first [(1, proc_short), (2, proc_b)]"
  by (simp add: queue_inv_def queue_rep_def in_order_def process_evaluation_def identity_def
      nice_ok_def store_short_b_def queue_short_first_def proc_short_def proc_b_def)

lemma queue_inv_short_long:
  "queue_inv store_short_long queue_short_first [(1, proc_short), (2, proc_long\<lparr>niceness := 11\<rparr>)]"
  by (simp add: queue_inv_def queue_rep_def in_order_def process_evaluation_def identity_def
      nice_ok_def store_short_long_def queue_short_first_def proc_short_def proc_long_def)

text \<open>
  Claim C4: when the callback invoked by \<^verbatim>\<open>run_top\<close> returns a non-zero value,
  \<^verbatim>\<open>run_top\<close> leaves the queue size unchanged, writes the new remaining_time,
  re-inserts the process at its sorted position and returns the new remaining_time.
  The process is removed before it is pushed again, and the result of that push is not
  looked at: when its allocation fails the process is gone. Here the only process of
  the queue is run with quantum 5 and asks for 3 more units while no memory is left:
  \<^verbatim>\<open>run_top\<close> returns 6 and the queue is empty. And the push places the process by
  the comparator of the code, whose score is a 32-bit product: in a queue sorted by
  score, a process of niceness 20 that asks for 214748365 more units (score 4294967300)
  is put in front of a process of score 10.
\<close>

theorem run_top_requeued_counterexample:
  "queue_inv store_a queue_a [(1, proc_a)] \<and> allocator malloc_fails \<and>
   run_top malloc_fails (\<lambda>cb t cx. 3) store_a queue_a 1 5 =
     Some (Map.empty, \<lparr>q_top = None, q_bottom = None, q_size = 0\<rparr>, 6, Some (1, 5, 1)) \<and>
   queue_inv store_short_b queue_short_first [(1, proc_short), (2, proc_b)] \<and>
   sorted_by_score [proc_short, proc_b] \<and> allocator (malloc_in [5]) \<and>
   run_top (malloc_in [5]) (\<lambda>cb t cx. 214748365) store_short_b queue_short_first 2 5 =
     Some (Map.empty(5 \<mapsto> \<lparr>process = proc_b\<lparr>remaining_time := 214748365\<rparr>,
                            item_next = Some 1, item_prev = None\<rparr>,
                     1 \<mapsto> \<lparr>process = proc_short, item_next = None, item_prev = Some 5\<rparr>),
           \<lparr>q_top = Some 5, q_bottom = Some 1, q_size = 2\<rparr>, 214748365, Some (2, 5, 2)) \<and>
   score (proc_b\<lparr>remaining_time := 214748365\<rparr>) = 4294967300 \<and> score proc_short = 10 \<and>
   \<not> sorted_by_score [proc_b\<lparr>remaining_time := 214748365\<rparr>, proc_short]"
proof -
  have "run_top malloc_fails (\<lambda>cb t cx. 3) store_a queue_a 1 5 =
     Some (Map.empty, \<lparr>q_top = None, q_bottom = None, q_size = 0\<rparr>, 6, Some (1, 5, 1))"
    by (simp add: eval_defs store_a_def queue_a_def proc_a_def)
  moreover have "run_top (malloc_in [5]) (\<lambda>cb t cx. 214748365) store_short_b queue_short_first 2 5 =
     Some (Map.empty(5 \<mapsto> \<lparr>process = proc_b\<lparr>remaining_time := 214748365\<rparr>,
                            item_next = Some 1, item_prev = None\<rparr>,
                     1 \<mapsto> \<lparr>process = proc_short, item_next = None, item_prev = Some 5\<rparr>),
           \<lparr>q_top = Some 5, q_bottom = Some 1, q_size = 2\<rparr>, 214748365, Some (2, 5, 2))"
    by (simp add: eval_defs process_evaluation_def store_short_b_def queue_short_first_def
        proc_short_def proc_b_def fun_eq_iff)
  moreover have s: "score (proc_b\<lparr>remaining_time := 214748365\<rparr>) = 4294967300" "score proc_short = 10"
    "score proc_b = 40"
    by (simp_all add: score_def proc_short_def proc_b_def)
  moreover from s have "sorted_by_score [proc_short, proc_b]"
    "\<not> sorted_by_score [proc_b\<lparr>remaining_time := 214748365\<rparr>, proc_short]"
    by (simp_all add: sorted_by_score_def outranks_def)
  ultimately show ?thesis
    using queue_inv_a allocator_malloc_fails queue_inv_short_b allocator_malloc_in by simp
qed

text \<open>
  Claim C4 as amended: when the callback invoked by \<^verbatim>\<open>run_top\<close> returns a non-zero
  value \<open>v\<close>, \<^verbatim>\<open>run_top\<close> removes the process, sets its remaining_time to
  \<open>remaining_time - quantum + v\<close> (modulo \<open>2 ^ 32\<close>) when the prior remaining_time
  exceeds the quantum and to \<open>v\<close> otherwise, and returns this new remaining_time.
  When the allocation made by the push fails, the queue is left without the process, one
  entry shorter. When it succeeds, the process is in the queue again, the other entries
  keep their order and the size is unchanged; and when, in addition, no score
  \<open>niceness * remaining_time\<close> of the updated process and of the other entries reaches
  \<open>2 ^ 32\<close>, the process is at its sorted position by score (immediately before the
  first entry that it outranks, at the tail when there is none) and the chain is sorted
  by score. \<open>h2\<close> is the store in which the push allocates.
\<close>

theorem run_top_requeued:
  assumes inv: "queue_inv h q xs" and al: "allocator malloc"
    and f: "find (\<lambda>x. cpu_mask (snd x) AND cm \<noteq> 0) xs = Some x"
    and v: "call (callback (snd x)) run_time (ctx (snd x)) = v" "v \<noteq> 0"
    and p': "p' = (snd x)\<lparr>remaining_time :=
        (if remaining_time (snd x) > run_time then remaining_time (snd x) - run_time + v else v)\<rparr>"
  shows "\<exists>h2 q2 h3 q3.
     queue_inv h2 q2 (remove1 x xs) \<and> h2 (fst x) = None \<and>
     (\<forall>b. b \<notin> fst ` set xs \<longrightarrow> h2 b = h b) \<and>
     run_top malloc call h q cm run_time =
       Some (h3, q3, remaining_time p', Some (callback (snd x), run_time, ctx (snd x))) \<and>
     (case malloc h2 of
        None \<Rightarrow> queue_inv h3 q3 (remove1 x xs) \<and> Suc (q_size q3) = q_size q
      | Some n \<Rightarrow>
          (\<exists>us vs. remove1 x xs = us @ vs \<and> queue_inv h3 q3 (us @ (n, p') # vs) \<and>
             q_size q3 = q_size q \<and>
             (list_all (no_wrap \<circ> snd) ((n, p') # remove1 x xs) \<longrightarrow>
                us @ (n, p') # vs = insert_by_score (n, p') (remove1 x xs) \<and>
                sorted_by_score (map snd (us @ (n, p') # vs)))))"
proof -
  from run_top_requeue [where call = call and run_time = run_time, OF inv al f v p'] obtain h2 q2 h3 q3 where
    inv2: "queue_inv h2 q2 (remove1 x xs)" and gone: "h2 (fst x) = None"
    and fr: "\<forall>b. b \<notin> fst ` set xs \<longrightarrow> h2 b = h b"
    and res: "run_top malloc call h q cm run_time =
       Some (h3, q3, remaining_time p', Some (callback (snd x), run_time, ctx (snd x)))"
    and inv3: "queue_inv h3 q3
       (case malloc h2 of None \<Rightarrow> remove1 x xs | Some n \<Rightarrow> insert_entry (n, p') (remove1 x xs))"
    by blast
  from find_Some_set [OF f] have "x \<in> set xs" by simp
  then have len: "Suc (length (remove1 x xs)) = length xs"
    by (simp add: length_remove1) (cases xs, auto)
  from inv have sz: "q_size q = length xs" by (simp add: queue_inv_def queue_rep_def)
  have "case malloc h2 of
        None \<Rightarrow> queue_inv h3 q3 (remove1 x xs) \<and> Suc (q_size q3) = q_size q
      | Some n \<Rightarrow>
          (\<exists>us vs. remove1 x xs = us @ vs \<and> queue_inv h3 q3 (us @ (n, p') # vs) \<and>
             q_size q3 = q_size q \<and>
             (list_all (no_wrap \<circ> snd) ((n, p') # remove1 x xs) \<longrightarrow>
                us @ (n, p') # vs = insert_by_score (n, p') (remove1 x xs) \<and>
                sorted_by_score (map snd (us @ (n, p') # vs))))"
  proof (cases "malloc h2")
    case None
    with inv3 have i: "queue_inv h3 q3 (remove1 x xs)" by simp
    then have "q_size q3 = length (remove1 x xs)" by (simp add: queue_inv_def queue_rep_def)
    with i len sz None show ?thesis by simp
  next
    case (Some n)
    with inv3 have "queue_inv h3 q3 (insert_entry (n, p') (remove1 x xs))" by simp
    from queue_inv_inserted [OF this] obtain us vs where
      split: "remove1 x xs = us @ vs" and i: "queue_inv h3 q3 (us @ (n, p') # vs)"
      and pos: "list_all (no_wrap \<circ> snd) ((n, p') # remove1 x xs) \<longrightarrow>
          us @ (n, p') # vs = insert_by_score (n, p') (remove1 x xs) \<and>
          sorted_by_score (map snd (us @ (n, p') # vs))"
      by blast
    from i have "q_size q3 = Suc (length (us @ vs))" by (simp add: queue_inv_def queue_rep_def)
    with split len sz have "q_size q3 = q_size q" by simp
    with split i pos Some show ?thesis by auto
  qed
  with inv2 gone fr res show ?thesis by blast
qed

lemma no_wrap_b_a6: "list_all (no_wrap \<circ> snd) [(5 :: addr, proc_a\<lparr>remaining_time := 6\<rparr>), (2, proc_b)]"
  by (simp add: no_wrap_def score_def proc_a_def proc_b_def)

lemma insert_by_score_b_a6:
  "insert_by_score (5, proc_a\<lparr>remaining_time := 6\<rparr>) [(2 :: addr, proc_b)] =
     [(2, proc_b), (5, proc_a\<lparr>remaining_time := 6\<rparr>)]"
  by (simp add: insert_by_score_def outranks_def score_def proc_a_def proc_b_def)

theorem run_top_requeued_witness:
  "queue_inv store_ab queue_ab [(2, proc_b), (1, proc_a)] \<and> allocator (malloc_in [5]) \<and>
   allocator malloc_fails \<and>
   list_all (no_wrap \<circ> snd) [(5 :: addr, proc_a\<lparr>remaining_time := 6\<rparr>), (2, proc_b)] \<and>
   (\<exists>h3 q3. run_top (malloc_in [5]) (\<lambda>cb t cx. 3) store_ab queue_ab 1 5 = Some (h3, q3, 6, Some (1, 5, 1)) \<and>
      queue_inv h3 q3 [(2, proc_b), (5, proc_a\<lparr>remaining_time := 6\<rparr>)] \<and>
      q_size q3 = q_size queue_ab \<and>
      [(2, proc_b), (5, proc_a\<lparr>remaining_time := 6\<rparr>)] =
        insert_by_score (5, proc_a\<lparr>remaining_time := 6\<rparr>) [(2, proc_b)] \<and>
      sorted_by_score [proc_b, proc_a\<lparr>remaining_time := 6\<rparr>]) \<and>
   (\<exists>h3 q3. run_top malloc_fails (\<lambda>cb t cx. 3) store_ab queue_ab 1 5 = Some (h3, q3, 6, Some (1, 5, 1)) \<and>
      queue_inv h3 q3 [(2, proc_b)] \<and> Suc (q_size q3) = q_size queue_ab)"
proof -
  have v: "(\<lambda>cb t cx. 3 :: 32 word) (callback (snd (1 :: addr, proc_a))) 5 (ctx (snd (1 :: addr, proc_a))) = 3"
    "(3 :: 32 word) \<noteq> 0"
    by simp_all
  have p': "proc_a\<lparr>remaining_time := 6\<rparr> = (snd (1 :: addr, proc_a))\<lparr>remaining_time :=
      (if remaining_time (snd (1 :: addr, proc_a)) > 5 then remaining_time (snd (1 :: addr, proc_a)) - 5 + 3 else 3)\<rparr>"
    by (simp add: proc_a_def)
  have rem: "remove1 (1, proc_a) [(2 :: addr, proc_b), (1, proc_a)] = [(2, proc_b)]"
    by (simp add: proc_a_def proc_b_def)
  from run_top_requeued [where malloc = "malloc_in [5]" and call = "\<lambda>cb t cx. 3" and run_time = 5,
      OF queue_inv_ab allocator_malloc_in find_mask_ab_1 v p']
  obtain h2 q2 h3 q3 where
    fr: "\<forall>b. b \<notin> fst ` set [(2 :: addr, proc_b), (1, proc_a)] \<longrightarrow> h2 b = store_ab b"
    and res: "run_top (malloc_in [5]) (\<lambda>cb t cx. 3) store_ab queue_ab 1 5 =
       Some (h3, q3, remaining_time (proc_a\<lparr>remaining_time := 6\<rparr>),
             Some (callback (snd (1 :: addr, proc_a)), 5, ctx (snd (1 :: addr, proc_a))))"
    and ins: "case malloc_in [5] h2 of
        None \<Rightarrow> queue_inv h3 q3 [(2, proc_b)] \<and> Suc (q_size q3) = q_size queue_ab
      | Some n \<Rightarrow>
          (\<exists>us vs. [(2 :: addr, proc_b)] = us @ vs \<and>
             queue_inv h3 q3 (us @ (n, proc_a\<lparr>remaining_time := 6\<rparr>) # vs) \<and>
             q_size q3 = q_size queue_ab \<and>
             (list_all (no_wrap \<circ> snd) [(n, proc_a\<lparr>remaining_time := 6\<rparr>), (2, proc_b)] \<longrightarrow>
                us @ (n, proc_a\<lparr>remaining_time := 6\<rparr>) # vs =
                  insert_by_score (n, proc_a\<lparr>remaining_time := 6\<rparr>) [(2, proc_b)] \<and>
                sorted_by_score (map snd (us @ (n, proc_a\<lparr>remaining_time := 6\<rparr>) # vs))))"
    unfolding rem by blast
  from fr have "h2 5 = None" by (simp add: store_ab_def)
  then have "malloc_in [5] h2 = Some 5" by (simp add: malloc_in_def)
  with ins have "\<exists>us vs. [(2 :: addr, proc_b)] = us @ vs \<and>
      queue_inv h3 q3 (us @ (5, proc_a\<lparr>remaining_time := 6\<rparr>) # vs) \<and>
      q_size q3 = q_size queue_ab \<and>
      (list_all (no_wrap \<circ> snd) [(5, proc_a\<lparr>remaining_time := 6\<rparr>), (2, proc_b)] \<longrightarrow>
         us @ (5, proc_a\<lparr>remaining_time := 6\<rparr>) # vs =
           insert_by_score (5, proc_a\<lparr>remaining_time := 6\<rparr>) [(2, proc_b)] \<and>
         sorted_by_score (map snd (us @ (5, proc_a\<lparr>remaining_time := 6\<rparr>) # vs)))"
    by simp
  with no_wrap_b_a6 obtain us vs where
    i: "queue_inv h3 q3 (us @ (5, proc_a\<lparr>remaining_time := 6\<rparr>) # vs)"
    and sz: "q_size q3 = q_size queue_ab"
    and pos: "us @ (5, proc_a\<lparr>remaining_time := 6\<rparr>) # vs =
        insert_by_score (5, proc_a\<lparr>remaining_time := 6\<rparr>) [(2, proc_b)]"
    and srt: "sorted_by_score (map snd (us @ (5, proc_a\<lparr>remaining_time := 6\<rparr>) # vs))"
    by blast
  from pos have eq: "us @ (5, proc_a\<lparr>remaining_time := 6\<rparr>) # vs =
      [(2, proc_b), (5, proc_a\<lparr>remaining_time := 6\<rparr>)]"
    by (simp only: insert_by_score_b_a6)
  from res have r: "run_top (malloc_in [5]) (\<lambda>cb t cx. 3) store_ab queue_ab 1 5 =
      Some (h3, q3, 6, Some (1, 5, 1))"
    by (simp add: proc_a_def)
  from i eq have i': "queue_inv h3 q3 [(2, proc_b), (5, proc_a\<lparr>remaining_time := 6\<rparr>)]" by simp
  from srt eq have srt': "sorted_by_score [proc_b, proc_a\<lparr>remaining_time := 6\<rparr>]" by simp
  have ok: "\<exists>h3 q3. run_top (malloc_in [5]) (\<lambda>cb t cx. 3) store_ab queue_ab 1 5 = Some (h3, q3, 6, Some (1, 5, 1)) \<and>
      queue_inv h3 q3 [(2, proc_b), (5, proc_a\<lparr>remaining_time := 6\<rparr>)] \<and>
      q_size q3 = q_size queue_ab \<and>
      [(2, proc_b), (5, proc_a\<lparr>remaining_time := 6\<rparr>)] =
        insert_by_score (5, proc_a\<lparr>remaining_time := 6\<rparr>) [(2, proc_b)] \<and>
      sorted_by_score [proc_b, proc_a\<lparr>remaining_time := 6\<rparr>]"
    using r i' sz srt' insert_by_score_b_a6 [symmetric]
    by (intro exI [where x = h3] exI [where x = q3] conjI)
  from run_top_requeued [where malloc = malloc_fails and call = "\<lambda>cb t cx. 3" and run_time = 5,
      OF queue_inv_ab allocator_malloc_fails find_mask_ab_1 v p']
  have failed: "\<exists>h3 q3. run_top malloc_fails (\<lambda>cb t cx. 3) store_ab queue_ab 1 5 = Some (h3, q3, 6, Some (1, 5, 1)) \<and>
      queue_inv h3 q3 [(2, proc_b)] \<and> Suc (q_size q3) = q_size queue_ab"
    unfolding rem by (auto simp: malloc_fails_def proc_a_def)
  from queue_inv_ab allocator_malloc_in allocator_malloc_fails no_wrap_b_a6 ok failed
  show ?thesis by (intro conjI)
qed

text \<open>
  Claim C7: for new_niceness in [10, 49], \<^verbatim>\<open>renice\<close> returns false and changes nothing
  when no queued entry has the identity; otherwise it sets the niceness of that entry,
  removes it and pushes it again so that it lands at its sorted position, and returns
  true. The entry is removed before it is pushed again, and the result of that push is
  not looked at: when its allocation fails the entry is gone, and \<^verbatim>\<open>renice\<close> still
  returns true. Here the only entry of the queue is reniced while no memory is left.
  And the push places the entry by the comparator of the code, whose score is a 32-bit
  product: in a queue sorted by score, an entry with 429496730 units left that is
  reniced from 11 to 10 (score 4294967300) is put in front of an entry of score 10.
\<close>

theorem renice_counterexample:
  "queue_inv store_a queue_a [(1, proc_a)] \<and> allocator malloc_fails \<and>
   renice malloc_fails store_a queue_a 1 1 20 =
     Some (Map.empty, \<lparr>q_top = None, q_bottom = None, q_size = 0\<rparr>, True) \<and>
   queue_inv store_short_long queue_short_first [(1, proc_short), (2, proc_long\<lparr>niceness := 11\<rparr>)] \<and>
   sorted_by_score [proc_short, proc_long\<lparr>niceness := 11\<rparr>] \<and> allocator (malloc_in [5]) \<and>
   renice (malloc_in [5]) store_short_long queue_short_first 5 5 10 =
     Some (Map.empty(5 \<mapsto> \<lparr>process = proc_long, item_next = Some 1, item_prev = None\<rparr>,
                     1 \<mapsto> \<lparr>process = proc_short, item_next = None, item_prev = Some 5\<rparr>),
           \<lparr>q_top = Some 5, q_bottom = Some 1, q_size = 2\<rparr>, True) \<and>
   score proc_long = 4294967300 \<and> score proc_short = 10 \<and>
   \<not> sorted_by_score [proc_long, proc_short]"
proof -
  have "renice malloc_fails store_a queue_a 1 1 20 =
     Some (Map.empty, \<lparr>q_top = None, q_bottom = None, q_size = 0\<rparr>, True)"
    by (simp add: eval_defs store_a_def queue_a_def proc_a_def)
  moreover have "renice (malloc_in [5]) store_short_long queue_short_first 5 5 10 =
     Some (Map.empty(5 \<mapsto> \<lparr>process = proc_long, item_next = Some 1, item_prev = None\<rparr>,
                     1 \<mapsto> \<lparr>process = proc_short, item_next = None, item_prev = Some 5\<rparr>),
           \<lparr>q_top = Some 5, q_bottom = Some 1, q_size = 2\<rparr>, True)"
    by (simp add: eval_defs process_evaluation_def store_short_long_def queue_short_first_def
        proc_short_def proc_long_def fun_eq_iff)
  moreover have s: "score proc_long = 4294967300" "score proc_short = 10"
    "score (proc_long\<lparr>niceness := 11\<rparr>) = 4724464030"
    by (simp_all add: score_def proc_short_def proc_long_def)
  moreover from s have "sorted_by_score [proc_short, proc_long\<lparr>niceness := 11\<rparr>]"
    "\<not> sorted_by_score [proc_long, proc_short]"
    by (simp_all add: sorted_by_score_def outranks_def)
  ultimately show ?thesis
    using queue_inv_a allocator_malloc_fails queue_inv_short_long allocator_malloc_in by simp
qed

text \<open>
  Claim C7 as amended: for new_niceness in [10, 49], \<^verbatim>\<open>renice\<close> returns false and
  changes nothing when no queued entry has the identity; otherwise it removes that
  entry and returns true. When the allocation made by the push fails, the queue is
  left without the entry. When it succeeds, the entry with its niceness set to
  new_niceness is in the queue again and the other entries keep their order; and when,
  in addition, no score \<open>niceness * remaining_time\<close> of the updated entry and of the
  other entries reaches \<open>2 ^ 32\<close>, the entry is at its sorted position by score
  (immediately before the first entry that it outranks, at the tail when there is none)
  and the chain is sorted by score. \<open>h2\<close> is the store in which the push allocates.
\<close>

theorem renice_requeued:
  assumes inv: "queue_inv h q xs" and al: "allocator malloc" and rng: "10 \<le> nice \<and> nice \<le> 49"
  shows "case find (\<lambda>x. identity (snd x) = (cb, cx)) xs of
       None \<Rightarrow> renice malloc h q cb cx nice = Some (h, q, False)
     | Some x \<Rightarrow>
         (\<exists>h2 q2 h3 q3.
            queue_inv h2 q2 (remove1 x xs) \<and> h2 (fst x) = None \<and>
            (\<forall>b. b \<notin> fst ` set xs \<longrightarrow> h2 b = h b) \<and>
            renice malloc h q cb cx nice = Some (h3, q3, True) \<and>
            (case malloc h2 of
               None \<Rightarrow> queue_inv h3 q3 (remove1 x xs)
             | Some n \<Rightarrow>
                 (\<exists>us vs. remove1 x xs = us @ vs \<and>
                    queue_inv h3 q3 (us @ (n, (snd x)\<lparr>niceness := nice\<rparr>) # vs) \<and>
                    (list_all (no_wrap \<circ> snd) ((n, (snd x)\<lparr>niceness := nice\<rparr>) # remove1 x xs) \<longrightarrow>
                       us @ (n, (snd x)\<lparr>niceness := nice\<rparr>) # vs =
                         insert_by_score (n, (snd x)\<lparr>niceness := nice\<rparr>) (remove1 x xs) \<and>
                       sorted_by_score (map snd (us @ (n, (snd x)\<lparr>niceness := nice\<rparr>) # vs))))))"
proof (cases "find (\<lambda>x. identity (snd x) = (cb, cx)) xs")
  case None
  from inv have "queue_rep h q xs" by (simp add: queue_inv_def)
  from renice_absent [OF this rng None, of malloc] None show ?thesis by simp
next
  case (Some x)
  let ?p = "(snd x)\<lparr>niceness := nice\<rparr>"
  from renice_present [OF inv al rng Some] obtain h2 q2 h3 q3 where
    inv2: "queue_inv h2 q2 (remove1 x xs)" and gone: "h2 (fst x) = None"
    and fr: "\<forall>b. b \<notin> fst ` set xs \<longrightarrow> h2 b = h b"
    and res: "renice malloc h q cb cx nice = Some (h3, q3, True)"
    and inv3: "queue_inv h3 q3
       (case malloc h2 of
          None \<Rightarrow> remove1 x xs
        | Some n \<Rightarrow> insert_entry (n, ?p) (remove1 x xs))"
    by blast
  have "case malloc h2 of
       None \<Rightarrow> queue_inv h3 q3 (remove1 x xs)
     | Some n \<Rightarrow>
         (\<exists>us vs. remove1 x xs = us @ vs \<and> queue_inv h3 q3 (us @ (n, ?p) # vs) \<and>
            (list_all (no_wrap \<circ> snd) ((n, ?p) # remove1 x xs) \<longrightarrow>
               us @ (n, ?p) # vs = insert_by_score (n, ?p) (remove1 x xs) \<and>
               sorted_by_score (map snd (us @ (n, ?p) # vs))))"
  proof (cases "malloc h2")
    case None
    with inv3 show ?thesis by simp
  next
    case (Some n)
    with inv3 have "queue_inv h3 q3 (insert_entry (n, ?p) (remove1 x xs))" by simp
    from queue_inv_inserted [OF this] Some show ?thesis by simp
  qed
  with inv2 gone fr res have "\<exists>h2 q2 h3 q3.
            queue_inv h2 q2 (remove1 x xs) \<and> h2 (fst x) = None \<and>
            (\<forall>b. b \<notin> fst ` set xs \<longrightarrow> h2 b = h b) \<and>
            renice malloc h q cb cx nice = Some (h3, q3, True) \<and>
            (case malloc h2 of
               None \<Rightarrow> queue_inv h3 q3 (remove1 x xs)
             | Some n \<Rightarrow>
                 (\<exists>us vs. remove1 x xs = us @ vs \<and> queue_inv h3 q3 (us @ (n, ?p) # vs) \<and>
                    (list_all (no_wrap \<circ> snd) ((n, ?p) # remove1 x xs) \<longrightarrow>
                       us @ (n, ?p) # vs = insert_by_score (n, ?p) (remove1 x xs) \<and>
                       sorted_by_score (map snd (us @ (n, ?p) # vs)))))"
    by blast
  with Some show ?thesis by simp
qed

lemma no_wrap_b45_a: "list_all (no_wrap \<circ> snd) [(5 :: addr, proc_b\<lparr>niceness := 45\<rparr>), (1, proc_a)]"
  by (simp add: no_wrap_def score_def proc_a_def proc_b_def)

lemma insert_by_score_a_b45:
  "insert_by_score (5, proc_b\<lparr>niceness := 45\<rparr>) [(1 :: addr, proc_a)] =
     [(1, proc_a), (5, proc_b\<lparr>niceness := 45\<rparr>)]"
  by (simp add: insert_by_score_def outranks_def score_def proc_a_def proc_b_def)

theorem renice_requeued_witness:
  "queue_inv store_ab queue_ab [(2, proc_b), (1, proc_a)] \<and> allocator (malloc_in [5]) \<and>
   allocator malloc_fails \<and>
   list_all (no_wrap \<circ> snd) [(5 :: addr, proc_b\<lparr>niceness := 45\<rparr>), (1, proc_a)] \<and>
   renice (malloc_in [5]) store_ab queue_ab 7 7 45 = Some (store_ab, queue_ab, False) \<and>
   (\<exists>h3 q3. renice (malloc_in [5]) store_ab queue_ab 2 2 45 = Some (h3, q3, True) \<and>
      queue_inv h3 q3 [(1, proc_a), (5, proc_b\<lparr>niceness := 45\<rparr>)] \<and>
      [(1, proc_a), (5, proc_b\<lparr>niceness := 45\<rparr>)] =
        insert_by_score (5, proc_b\<lparr>niceness := 45\<rparr>) [(1, proc_a)] \<and>
      sorted_by_score [proc_a, proc_b\<lparr>niceness := 45\<rparr>]) \<and>
   (\<exists>h3 q3. renice malloc_fails store_ab queue_ab 2 2 45 = Some (h3, q3, True) \<and>
      queue_inv h3 q3 [(1, proc_a)])"
proof -
  have rng: "10 \<le> (45 :: 32 word) \<and> (45 :: 32 word) \<le> 49" by simp
  have f7: "find (\<lambda>x. identity (snd x) = (7, 7)) [(2 :: addr, proc_b), (1, proc_a)] = None"
    by (simp add: identity_def proc_a_def proc_b_def)
  have f2: "find (\<lambda>x. identity (snd x) = (2, 2)) [(2 :: addr, proc_b), (1, proc_a)] = Some (2, proc_b)"
    by (simp add: identity_def proc_a_def proc_b_def)
  have rem: "remove1 (2, proc_b) [(2 :: addr, proc_b), (1, proc_a)] = [(1, proc_a)]"
    by simp
  from renice_requeued [where malloc = "malloc_in [5]" and cb = 7 and cx = 7,
      OF queue_inv_ab allocator_malloc_in rng]
  have absent: "renice (malloc_in [5]) store_ab queue_ab 7 7 45 = Some (store_ab, queue_ab, False)"
    unfolding f7 by simp
  from renice_requeued [where malloc = "malloc_in [5]" and cb = 2 and cx = 2,
      OF queue_inv_ab allocator_malloc_in rng]
  obtain h2 q2 h3 q3 where
    fr: "\<forall>b. b \<notin> fst ` set [(2 :: addr, proc_b), (1, proc_a)] \<longrightarrow> h2 b = store_ab b"
    and res: "renice (malloc_in [5]) store_ab queue_ab 2 2 45 = Some (h3, q3, True)"
    and ins: "case malloc_in [5] h2 of
        None \<Rightarrow> queue_inv h3 q3 [(1, proc_a)]
      | Some n \<Rightarrow>
          (\<exists>us vs. [(1 :: addr, proc_a)] = us @ vs \<and>
             queue_inv h3 q3 (us @ (n, proc_b\<lparr>niceness := 45\<rparr>) # vs) \<and>
             (list_all (no_wrap \<circ> snd) [(n, proc_b\<lparr>niceness := 45\<rparr>), (1, proc_a)] \<longrightarrow>
                us @ (n, proc_b\<lparr>niceness := 45\<rparr>) # vs =
                  insert_by_score (n, proc_b\<lparr>niceness := 45\<rparr>) [(1, proc_a)] \<and>
                sorted_by_score (map snd (us @ (n, proc_b\<lparr>niceness := 45\<rparr>) # vs))))"
    unfolding f2 option.case rem snd_conv by blast
  from fr have "h2 5 = None" by (simp add: store_ab_def)
  then have "malloc_in [5] h2 = Some 5" by (simp add: malloc_in_def)
  with ins have "\<exists>us vs. [(1 :: addr, proc_a)] = us @ vs \<and>
      queue_inv h3 q3 (us @ (5, proc_b\<lparr>niceness := 45\<rparr>) # vs) \<and>
      (list_all (no_wrap \<circ> snd) [(5, proc_b\<lparr>niceness := 45\<rparr>), (1, proc_a)] \<longrightarrow>
         us @ (5, proc_b\<lparr>niceness := 45\<rparr>) # vs =
           insert_by_score (5, proc_b\<lparr>niceness := 45\<rparr>) [(1, proc_a)] \<and>
         sorted_by_score (map snd (us @ (5, proc_b\<lparr>niceness := 45\<rparr>) # vs)))"
    by simp
  with no_wrap_b45_a obtain us vs where
    i: "queue_inv h3 q3 (us @ (5, proc_b\<lparr>niceness := 45\<rparr>) # vs)"
    and pos: "us @ (5, proc_b\<lparr>niceness := 45\<rparr>) # vs =
        insert_by_score (5, proc_b\<lparr>niceness := 45\<rparr>) [(1, proc_a)]"
    and srt: "sorted_by_score (map snd (us @ (5, proc_b\<lparr>niceness := 45\<rparr>) # vs))"
    by blast
  from pos have eq: "us @ (5, proc_b\<lparr>niceness := 45\<rparr>) # vs =
      [(1, proc_a), (5, proc_b\<lparr>niceness := 45\<rparr>)]"
    by (simp only: insert_by_score_a_b45)
  from i eq have i': "queue_inv h3 q3 [(1, proc_a), (5, proc_b\<lparr>niceness := 45\<rparr>)]" by simp
  from srt eq have srt': "sorted_by_score [proc_a, proc_b\<lparr>niceness := 45\<rparr>]" by simp
  have ok: "\<exists>h3 q3. renice (malloc_in [5]) store_ab queue_ab 2 2 45 = Some (h3, q3, True) \<and>
      queue_inv h3 q3 [(1, proc_a), (5, proc_b\<lparr>niceness := 45\<rparr>)] \<and>
      [(1, proc_a), (5, proc_b\<lparr>niceness := 45\<rparr>)] =
        insert_by_score (5, proc_b\<lparr>niceness := 45\<rparr>) [(1, proc_a)] \<and>
      sorted_by_score [proc_a, proc_b\<lparr>niceness := 45\<rparr>]"
    using res i' srt' insert_by_score_a_b45 [symmetric]
    by (intro exI [where x = h3] exI [where x = q3] conjI)
  from renice_requeued [where malloc = malloc_fails and cb = 2 and cx = 2,
      OF queue_inv_ab allocator_malloc_fails rng]
  have failed: "\<exists>h3 q3. renice malloc_fails store_ab queue_ab 2 2 45 = Some (h3, q3, True) \<and>
      queue_inv h3 q3 [(1, proc_a)]"
    unfolding f2 option.case rem by (auto simp: malloc_fails_def)
  from queue_inv_ab allocator_malloc_in allocator_malloc_fails no_wrap_b45_a absent ok failed
  show ?thesis by (intro conjI)
qed

lemma process_evaluation_le_trans:
  "process_evaluation a b \<Longrightarrow> \<not> process_evaluation c b \<Longrightarrow> process_evaluation a c"
  by (auto simp: process_evaluation_score32)

lemma takeWhile_stops:
  "\<not> Q z \<Longrightarrow> length (takeWhile Q (ys @ z # zs)) \<le> length ys"
  by (induction ys) auto

lemma position_here:
  assumes "\<forall>y \<in> set ys. identity (snd y) \<noteq> ident" "identity (snd x) = ident"
  shows "position ident (map snd (ys @ x # zs)) = length ys"
proof -
  have "takeWhile (\<lambda>p. identity p \<noteq> ident) (map snd (ys @ x # zs)) = map snd ys"
    using assms by (induction ys) auto
  then show ?thesis by (simp add: position_def)
qed

lemma lower_niceness_outranks:
  assumes lower: "nice < niceness p" and rt: "remaining_time p \<noteq> 0"
    and nowrap: "unat (niceness p) * unat (remaining_time p) < 2 ^ 32"
  shows "process_evaluation (p\<lparr>niceness := nice\<rparr>) p"
proof -
  from lower have l: "unat nice < unat (niceness p)" by (simp add: word_less_nat_alt)
  from rt have r: "0 < unat (remaining_time p)" by (simp add: unat_gt_0)
  from l r have lt: "unat nice * unat (remaining_time p) < unat (niceness p) * unat (remaining_time p)"
    by simp
  from lt nowrap have "unat nice * unat (remaining_time p) < 2 ^ 32" by (rule less_trans)
  with nowrap lt have "score32 (p\<lparr>niceness := nice\<rparr>) < score32 p"
    by (simp add: score32_def)
  then show ?thesis by (simp add: process_evaluation_score32)
qed

text \<open>
  Claim C8: renicing an entry to a strictly lower niceness, its remaining_time
  unchanged, never moves it to a later position in the queue order. An entry is put
  behind the entries it ties with, so an entry whose score does not change can move
  back: with nothing left to do the score is 0 for every niceness. Here two such
  processes tie; renicing the first from 20 to 10 moves it from position 0 to
  position 1.
\<close>

theorem renice_lower_counterexample:
  "queue_inv store_cd queue_cd [(3, proc_c), (4, proc_d)] \<and> 10 < niceness proc_c \<and>
   renice (malloc_in [3]) store_cd queue_cd 3 3 10 =
     Some (Map.empty(4 \<mapsto> \<lparr>process = proc_d, item_next = Some 3, item_prev = None\<rparr>,
                     3 \<mapsto> \<lparr>process = proc_c\<lparr>niceness := 10\<rparr>, item_next = None, item_prev = Some 4\<rparr>),
           \<lparr>q_top = Some 4, q_bottom = Some 3, q_size = 2\<rparr>, True) \<and>
   position (3, 3) [proc_c, proc_d] = 0 \<and>
   position (3, 3) [proc_d, proc_c\<lparr>niceness := 10\<rparr>] = 1"
proof -
  have 1: "queue_inv store_cd queue_cd [(3, proc_c), (4, proc_d)]"
    by (simp add: queue_inv_def queue_rep_def in_order_def identity_def nice_ok_def
        process_evaluation_def store_cd_def queue_cd_def proc_c_def proc_d_def)
  have 2: "renice (malloc_in [3]) store_cd queue_cd 3 3 10 =
     Some (Map.empty(4 \<mapsto> \<lparr>process = proc_d, item_next = Some 3, item_prev = None\<rparr>,
                     3 \<mapsto> \<lparr>process = proc_c\<lparr>niceness := 10\<rparr>, item_next = None, item_prev = Some 4\<rparr>),
           \<lparr>q_top = Some 4, q_bottom = Some 3, q_size = 2\<rparr>, True)"
    by (simp add: eval_defs process_evaluation_def store_cd_def queue_cd_def proc_c_def proc_d_def
        fun_eq_iff)
  have 3: "position (3, 3) [proc_c, proc_d] = 0"
    "position (3, 3) [proc_d, proc_c\<lparr>niceness := 10\<rparr>] = 1"
    by (simp_all add: position_def identity_def proc_c_def proc_d_def)
  have 4: "10 < niceness proc_c" by (simp add: proc_c_def)
  from 1 2 3 4 show ?thesis by simp
qed


text \<open>
  Claim C8 as amended: renicing an entry to a strictly lower niceness, its
  remaining_time unchanged and not 0 and its old product niceness * remaining_time
  below \<open>2 ^ 32\<close> (so that its score strictly decreases), never moves the entry to a
  later position in the queue order, provided the allocation made by the push succeeds.
  \<open>h2\<close> is the store in which the push allocates.
\<close>

theorem renice_lower_not_later:
  assumes inv: "queue_inv h q xs" and al: "allocator malloc" and rng: "10 \<le> nice \<and> nice \<le> 49"
    and f: "find (\<lambda>x. identity (snd x) = (cb, cx)) xs = Some x"
    and lower: "nice < niceness (snd x)" and rt: "remaining_time (snd x) \<noteq> 0"
    and nowrap: "unat (niceness (snd x)) * unat (remaining_time (snd x)) < 2 ^ 32"
  shows "\<exists>h2 q2 h3 q3.
     queue_inv h2 q2 (remove1 x xs) \<and> h2 (fst x) = None \<and>
     (\<forall>b. b \<notin> fst ` set xs \<longrightarrow> h2 b = h b) \<and>
     renice malloc h q cb cx nice = Some (h3, q3, True) \<and>
     (case malloc h2 of
        None \<Rightarrow> True
      | Some n \<Rightarrow>
          (\<exists>xs'. queue_inv h3 q3 xs' \<and> (n, (snd x)\<lparr>niceness := nice\<rparr>) \<in> set xs' \<and>
             position (cb, cx) (map snd xs') \<le> position (cb, cx) (map snd xs)))"
proof -
  let ?p' = "(snd x)\<lparr>niceness := nice\<rparr>"
  from renice_present [OF inv al rng f] obtain h2 q2 h3 q3 where
    inv2: "queue_inv h2 q2 (remove1 x xs)" and gone: "h2 (fst x) = None"
    and fr: "\<forall>b. b \<notin> fst ` set xs \<longrightarrow> h2 b = h b"
    and res: "renice malloc h q cb cx nice = Some (h3, q3, True)"
    and inv3: "queue_inv h3 q3
       (case malloc h2 of None \<Rightarrow> remove1 x xs | Some n \<Rightarrow> insert_entry (n, ?p') (remove1 x xs))"
    by blast
  from find_Some_split [OF f] obtain ys zs where xs: "xs = ys @ x # zs"
    and nys: "\<forall>z \<in> set ys. identity (snd z) \<noteq> (cb, cx)" and px: "identity (snd x) = (cb, cx)"
    by blast
  from nys px have "x \<notin> set ys" by auto
  then have rm: "remove1 x xs = ys @ zs" using xs by (simp add: remove1_append)
  from inv xs have dist: "distinct (map (identity \<circ> snd) (ys @ x # zs))"
    and ord: "in_order (map snd (ys @ x # zs))"
    by (simp_all add: queue_inv_def)
  from dist px have others: "\<forall>y \<in> set (ys @ zs). identity (snd y) \<noteq> (cb, cx)"
    by (auto simp: image_iff)
  have pos: "position (cb, cx) (map snd xs) = length ys"
    unfolding xs using nys px by (rule position_here)
  have out: "process_evaluation ?p' (snd x)"
    using lower rt nowrap by (rule lower_niceness_outranks)
  have "case malloc h2 of
        None \<Rightarrow> True
      | Some n \<Rightarrow>
          (\<exists>xs'. queue_inv h3 q3 xs' \<and> (n, ?p') \<in> set xs' \<and>
             position (cb, cx) (map snd xs') \<le> position (cb, cx) (map snd xs))"
  proof (cases "malloc h2")
    case None
    then show ?thesis by simp
  next
    case (Some n)
    let ?Q = "\<lambda>y. \<not> process_evaluation (snd (n, ?p')) (snd y)"
    let ?xs' = "insert_entry (n, ?p') (ys @ zs)"
    from Some inv3 rm have i: "queue_inv h3 q3 ?xs'" by simp
    have split: "?xs' = takeWhile ?Q (ys @ zs) @ (n, ?p') # dropWhile ?Q (ys @ zs)"
      by (simp add: insert_entry_def)
    have "\<forall>y \<in> set (takeWhile ?Q (ys @ zs)). identity (snd y) \<noteq> (cb, cx)"
    proof
      fix y assume "y \<in> set (takeWhile ?Q (ys @ zs))"
      then have "y \<in> set (ys @ zs)" by (rule set_takeWhileD [THEN conjunct1])
      with others show "identity (snd y) \<noteq> (cb, cx)" by blast
    qed
    moreover have "identity (snd (n, ?p')) = (cb, cx)" using px by (simp add: identity_def)
    ultimately have "position (cb, cx) (map snd ?xs') = length (takeWhile ?Q (ys @ zs))"
      unfolding split by (rule position_here)
    moreover have "length (takeWhile ?Q (ys @ zs)) \<le> length ys"
    proof (cases zs)
      case Nil
      then show ?thesis using length_takeWhile_le [of ?Q ys] by simp
    next
      case (Cons z zs')
      from ord Cons have "\<not> process_evaluation (snd z) (snd x)"
        by (auto simp: in_order_append in_order_Cons)
      with out have "process_evaluation ?p' (snd z)" by (rule process_evaluation_le_trans)
      then have "\<not> ?Q z" by simp
      then show ?thesis unfolding Cons by (rule takeWhile_stops)
    qed
    ultimately have "position (cb, cx) (map snd ?xs') \<le> position (cb, cx) (map snd xs)"
      using pos by simp
    moreover have "(n, ?p') \<in> set ?xs'" by (simp add: set_insert_entry)
    ultimately show ?thesis using i Some by auto
  qed
  with inv2 gone fr res show ?thesis by blast
qed

theorem renice_lower_not_later_witness:
  "queue_inv store_ab queue_ab [(2, proc_b), (1, proc_a)] \<and> allocator (malloc_in [5]) \<and>
   (10 :: 32 word) < niceness proc_b \<and>
   (\<exists>h3 q3 xs'. renice (malloc_in [5]) store_ab queue_ab 2 2 10 = Some (h3, q3, True) \<and>
      queue_inv h3 q3 xs' \<and> (5, proc_b\<lparr>niceness := 10\<rparr>) \<in> set xs' \<and>
      position (2, 2) (map snd xs') \<le> position (2, 2) [proc_b, proc_a])"
proof -
  have rng: "10 \<le> (10 :: 32 word) \<and> (10 :: 32 word) \<le> 49" by simp
  have f: "find (\<lambda>x. identity (snd x) = (2, 2)) [(2 :: addr, proc_b), (1, proc_a)] = Some (2, proc_b)"
    by (simp add: identity_def proc_a_def proc_b_def)
  have lower: "10 < niceness (snd (2 :: addr, proc_b))" by (simp add: proc_b_def)
  have rt: "remaining_time (snd (2 :: addr, proc_b)) \<noteq> 0" by (simp add: proc_b_def)
  have nowrap: "unat (niceness (snd (2 :: addr, proc_b))) * unat (remaining_time (snd (2 :: addr, proc_b))) < 2 ^ 32"
    by (simp add: proc_b_def)
  from renice_lower_not_later [where malloc = "malloc_in [5]",
      OF queue_inv_ab allocator_malloc_in rng f lower rt nowrap]
  obtain h2 q2 h3 q3 where
    fr: "\<forall>b. b \<notin> fst ` set [(2 :: addr, proc_b), (1, proc_a)] \<longrightarrow> h2 b = store_ab b"
    and res: "renice (malloc_in [5]) store_ab queue_ab 2 2 10 = Some (h3, q3, True)"
    and ins: "case malloc_in [5] h2 of
        None \<Rightarrow> True
      | Some n \<Rightarrow>
          (\<exists>xs'. queue_inv h3 q3 xs' \<and> (n, (snd (2 :: addr, proc_b))\<lparr>niceness := 10\<rparr>) \<in> set xs' \<and>
             position (2, 2) (map snd xs') \<le> position (2, 2) (map snd [(2 :: addr, proc_b), (1, proc_a)]))"
    by blast
  from fr have "h2 5 = None" by (simp add: store_ab_def)
  then have "malloc_in [5] h2 = Some 5" by (simp add: malloc_in_def)
  with ins obtain xs' where "queue_inv h3 q3 xs'" "(5, proc_b\<lparr>niceness := 10\<rparr>) \<in> set xs'"
    "position (2, 2) (map snd xs') \<le> position (2, 2) [proc_b, proc_a]"
    by auto
  with res queue_inv_ab allocator_malloc_in lower show ?thesis by auto
qed

lemma set_pushed: "set (pushed xs new p) \<subseteq> set xs \<union> (case new of None \<Rightarrow> {} | Some n \<Rightarrow> {(n, p)})"
  by (auto simp: pushed_def set_insert_entry split: option.splits if_splits)

text \<open>
  A mutation of a queue with the chain \<open>bs\<close> leaves every live node that is not in
  \<open>bs\<close> as it is, and no such node becomes part of the queue.
\<close>

lemma push_separate:
  assumes rep: "queue_rep h d bs" and al: "allocator malloc"
    and push: "push_to_queue malloc h d p = Some (h1, d1, r)"
  shows "\<exists>bs1. queue_rep h1 d1 bs1 \<and>
     (\<forall>a. h a \<noteq> None \<longrightarrow> a \<notin> fst ` set bs \<longrightarrow> h1 a = h a \<and> a \<notin> fst ` set bs1)"
proof -
  from push have nice: "nice_ok p" by (rule push_to_queue_nice)
  from push_to_queue_rep [OF rep al nice] push
  have rep1: "queue_rep h1 d1 (pushed bs (malloc h) p)"
    and fr: "\<forall>b. malloc h \<noteq> Some b \<longrightarrow> b \<notin> fst ` set bs \<longrightarrow> h1 b = h b"
    by auto
  have "\<forall>a. h a \<noteq> None \<longrightarrow> a \<notin> fst ` set bs \<longrightarrow> h1 a = h a \<and> a \<notin> fst ` set (pushed bs (malloc h) p)"
  proof (intro allI impI)
    fix a assume live: "h a \<noteq> None" and out: "a \<notin> fst ` set bs"
    have ne: "malloc h \<noteq> Some a"
    proof
      assume "malloc h = Some a"
      with al have "h a = None" unfolding allocator_def by blast
      with live show False by simp
    qed
    with fr out have "h1 a = h a" by simp
    moreover have "a \<notin> fst ` set (pushed bs (malloc h) p)"
    proof
      assume "a \<in> fst ` set (pushed bs (malloc h) p)"
      then obtain y where "(a, y) \<in> set (pushed bs (malloc h) p)" by auto
      with set_pushed [of bs "malloc h" p]
      have "(a, y) \<in> set bs \<or> malloc h = Some a"
        by (auto split: option.splits)
      with out ne show False by force
    qed
    ultimately show "h1 a = h a \<and> a \<notin> fst ` set (pushed bs (malloc h) p)" by simp
  qed
  with rep1 show ?thesis by blast
qed

lemma pop_separate:
  assumes rep: "queue_rep h d bs"
    and pop: "pop_top h d cm out_local = Some (h1, d1, found, written)"
  shows "\<exists>bs1. queue_rep h1 d1 bs1 \<and>
     (\<forall>a. h a \<noteq> None \<longrightarrow> a \<notin> fst ` set bs \<longrightarrow> h1 a = h a \<and> a \<notin> fst ` set bs1)"
proof (cases "find (\<lambda>x. cpu_mask (snd x) AND cm \<noteq> 0) bs")
  case None
  from pop_top_none [OF rep None, of out_local] pop rep show ?thesis by auto
next
  case (Some x)
  have out: "out_local = out_null \<or> out_local = out_local \<or> out_local = out_node (fst x)" by simp
  from pop_top_rep [OF rep Some out] pop
  have rep1: "queue_rep h1 d1 (remove1 x bs)" and fr: "\<forall>b. b \<notin> fst ` set bs \<longrightarrow> h1 b = h b"
    by auto
  have "fst ` set (remove1 x bs) \<subseteq> fst ` set bs"
    using set_remove1_subset [of x bs] by auto
  with rep1 fr show ?thesis by blast
qed

lemma clear_separate:
  assumes rep: "queue_rep h d bs" and clear: "clear_queue h d = Some (h1, d1)"
  shows "\<exists>bs1. queue_rep h1 d1 bs1 \<and>
     (\<forall>a. h a \<noteq> None \<longrightarrow> a \<notin> fst ` set bs \<longrightarrow> h1 a = h a \<and> a \<notin> fst ` set bs1)"
proof -
  from clear_queue_rep [OF rep] clear
  have h1: "h1 = (\<lambda>a. if a \<in> fst ` set bs then None else h a)"
    and d1: "d1 = d\<lparr>q_bottom := None, q_top := None, q_size := 0\<rparr>"
    by simp_all
  have "queue_rep h1 d1 []" unfolding d1 by (simp add: queue_rep_def)
  moreover have "\<forall>a. h a \<noteq> None \<longrightarrow> a \<notin> fst ` set bs \<longrightarrow> h1 a = h a \<and> a \<notin> fst ` set ([] :: (addr \<times> process_type) list)"
    unfolding h1 by simp
  ultimately show ?thesis by blast
qed

lemma mutate_separate:
  assumes "mutate malloc h d ms = Some (h'', d'')" "queue_rep h d bs" "allocator malloc"
    "\<forall>a \<in> A. h a \<noteq> None \<and> a \<notin> fst ` set bs"
  shows "\<forall>a \<in> A. h'' a = h a"
  using assms
proof (induction ms arbitrary: h d bs)
  case Nil
  then show ?case by simp
next
  case (Cons m ms)
  have "\<exists>h1 d1 bs1. mutate malloc h1 d1 ms = Some (h'', d'') \<and> queue_rep h1 d1 bs1 \<and>
     (\<forall>a. h a \<noteq> None \<longrightarrow> a \<notin> fst ` set bs \<longrightarrow> h1 a = h a \<and> a \<notin> fst ` set bs1)"
  proof (cases m)
    case (Push p)
    with Cons.prems(1) obtain h1 d1 r where
      step: "push_to_queue malloc h d p = Some (h1, d1, r)" and rest: "mutate malloc h1 d1 ms = Some (h'', d'')"
      by (auto split: option.splits)
    from push_separate [OF Cons.prems(2,3) step] rest show ?thesis by blast
  next
    case (Pop cm)
    with Cons.prems(1) obtain h1 d1 found written where
      step: "pop_top h d cm out_local = Some (h1, d1, found, written)"
      and rest: "mutate malloc h1 d1 ms = Some (h'', d'')"
      by (auto split: option.splits)
    from pop_separate [OF Cons.prems(2) step] rest show ?thesis by blast
  next
    case Clear
    with Cons.prems(1) obtain h1 d1 where
      step: "clear_queue h d = Some (h1, d1)" and rest: "mutate malloc h1 d1 ms = Some (h'', d'')"
      by (auto split: option.splits)
    from clear_separate [OF Cons.prems(2) step] rest show ?thesis by blast
  qed
  then obtain h1 d1 bs1 where rest: "mutate malloc h1 d1 ms = Some (h'', d'')"
    and rep1: "queue_rep h1 d1 bs1"
    and sep: "\<forall>a. h a \<noteq> None \<longrightarrow> a \<notin> fst ` set bs \<longrightarrow> h1 a = h a \<and> a \<notin> fst ` set bs1"
    by blast
  from sep Cons.prems(4) have A1: "\<forall>a \<in> A. h1 a \<noteq> None \<and> a \<notin> fst ` set bs1" and same: "\<forall>a \<in> A. h1 a = h a"
    by auto
  from Cons.IH [OF rest rep1 Cons.prems(3) A1] same show ?case by simp
qed


text \<open>
  Claim C9: on success \<^verbatim>\<open>copy_queue\<close> makes the destination a queue with the same
  size, order and process values as the source, on nodes that were not allocated
  before, so that mutating the copy afterwards (push, pop, clear) never changes the
  size, order or contents of the source; if an allocation fails on the way, the
  partial copy is freed (the store is the one before the call), failure is returned
  and the destination and the source are as before.
\<close>

theorem copy_queue_independent:
  assumes rep: "queue_rep h source xs" and al: "allocator malloc"
  shows "\<exists>h' dest' ok. copy_queue malloc h dest source = Some (h', dest', ok) \<and>
     (if ok
      then (\<exists>cs. queue_rep h' dest' cs \<and> map snd cs = map snd xs \<and>
              (\<forall>a \<in> fst ` set cs. h a = None)) \<and>
           q_size dest' = q_size source \<and>
           queue_rep h' source xs \<and>
           (\<forall>m ms h'' dest''. allocator m \<longrightarrow> mutate m h' dest' ms = Some (h'', dest'') \<longrightarrow>
              queue_rep h'' source xs)
      else h' = h \<and> dest' = dest)"
proof -
  from copy_queue_rep [OF rep al, of dest] obtain h' dest' ok where
    res: "copy_queue malloc h dest source = Some (h', dest', ok)"
    and post: "if ok
      then \<exists>cs. queue_rep h' dest' cs \<and> map snd cs = map snd xs \<and>
             (\<forall>a \<in> fst ` set cs. h a = None) \<and> (\<forall>a. a \<notin> fst ` set cs \<longrightarrow> h' a = h a)
      else h' = h \<and> dest' = dest"
    by blast
  show ?thesis
  proof (cases ok)
    case False
    with res post show ?thesis by auto
  next
    case True
    with post obtain cs where cs: "queue_rep h' dest' cs" "map snd cs = map snd xs"
      "\<forall>a \<in> fst ` set cs. h a = None" "\<forall>a. a \<notin> fst ` set cs \<longrightarrow> h' a = h a"
      by auto
    from rep have seg: "dseg h (q_top source) None xs None (q_bottom source)"
      by (simp add: queue_rep_def)
    have live: "h a \<noteq> None" if "a \<in> fst ` set xs" for a
      using that dseg_lookup [OF seg] by fastforce
    have sep: "\<forall>a \<in> fst ` set xs. h' a \<noteq> None \<and> a \<notin> fst ` set cs"
    proof
      fix a assume a: "a \<in> fst ` set xs"
      then have l: "h a \<noteq> None" by (rule live)
      with cs(3) have "a \<notin> fst ` set cs" by auto
      with cs(4) l show "h' a \<noteq> None \<and> a \<notin> fst ` set cs" by simp
    qed
    have same: "\<forall>a \<in> fst ` set xs. h' a = h a"
    proof
      fix a assume a: "a \<in> fst ` set xs"
      with sep have "a \<notin> fst ` set cs" by blast
      with cs(4) show "h' a = h a" by simp
    qed
    from seg same have seg': "dseg h' (q_top source) None xs None (q_bottom source)"
      by (rule dseg_frame)
    with rep have rep': "queue_rep h' source xs" by (simp add: queue_rep_def)
    have "length cs = length xs" using cs(2) by (metis length_map)
    with cs(1) rep have sz: "q_size dest' = q_size source" by (simp add: queue_rep_def)
    have later: "queue_rep h'' source xs"
      if m: "allocator m" and mu: "mutate m h' dest' ms = Some (h'', dest'')" for m ms h'' dest''
    proof -
      from mutate_separate [OF mu cs(1) m sep] have "\<forall>a \<in> fst ` set xs. h'' a = h' a" .
      with seg' have "dseg h'' (q_top source) None xs None (q_bottom source)"
        by (rule dseg_frame)
      with rep show ?thesis by (simp add: queue_rep_def)
    qed
    from res True cs(1,2,3) sz rep' later show ?thesis by auto
  qed
qed

lemma copy_ab_fails:
  "copy_queue (malloc_in [5]) store_ab create_queue queue_ab = Some (store_ab, create_queue, False)"
  by (simp add: copy_queue_def copy_loop.simps copy_node_def eval_defs create_queue_def
      store_ab_def queue_ab_def fun_eq_iff)

lemma copy_ab:
  "copy_queue (malloc_in [5, 6]) store_ab create_queue queue_ab =
     Some (store_ab(5 \<mapsto> \<lparr>process = proc_b, item_next = Some 6, item_prev = None\<rparr>,
                    6 \<mapsto> \<lparr>process = proc_a, item_next = None, item_prev = Some 5\<rparr>),
           \<lparr>q_top = Some 5, q_bottom = Some 6, q_size = 2\<rparr>, True)"
  by (simp add: copy_queue_def copy_loop.simps copy_node_def eval_defs create_queue_def
      store_ab_def queue_ab_def fun_eq_iff)

lemma mutate_copy_ab:
  "\<exists>h'' dest''.
     mutate (malloc_in [7])
       (store_ab(5 \<mapsto> \<lparr>process = proc_b, item_next = Some 6, item_prev = None\<rparr>,
                 6 \<mapsto> \<lparr>process = proc_a, item_next = None, item_prev = Some 5\<rparr>))
       \<lparr>q_top = Some 5, q_bottom = Some 6, q_size = 2\<rparr> [Pop 1, Push proc_c, Clear] =
     Some (h'', dest'')"
  by (simp add: eval_defs process_evaluation_def store_ab_def proc_a_def proc_b_def proc_c_def)

theorem copy_queue_independent_witness:
  "queue_rep store_ab queue_ab [(2, proc_b), (1, proc_a)] \<and>
   allocator (malloc_in [5]) \<and> allocator (malloc_in [5, 6]) \<and> allocator (malloc_in [7]) \<and>
   copy_queue (malloc_in [5]) store_ab create_queue queue_ab = Some (store_ab, create_queue, False) \<and>
   (\<exists>h' dest' cs h'' dest''.
      copy_queue (malloc_in [5, 6]) store_ab create_queue queue_ab = Some (h', dest', True) \<and>
      queue_rep h' dest' cs \<and> map snd cs = [proc_b, proc_a] \<and> q_size dest' = q_size queue_ab \<and>
      queue_rep h' queue_ab [(2, proc_b), (1, proc_a)] \<and>
      mutate (malloc_in [7]) h' dest' [Pop 1, Push proc_c, Clear] = Some (h'', dest'') \<and>
      queue_rep h'' queue_ab [(2, proc_b), (1, proc_a)])"
proof -
  from copy_queue_independent [where malloc = "malloc_in [5]" and dest = create_queue,
      OF queue_rep_ab allocator_malloc_in]
  have 1: "copy_queue (malloc_in [5]) store_ab create_queue queue_ab = Some (store_ab, create_queue, False)"
    unfolding copy_ab_fails by simp
  from copy_queue_independent [where malloc = "malloc_in [5, 6]" and dest = create_queue,
      OF queue_rep_ab allocator_malloc_in]
  obtain h' dest' cs where
    c: "copy_queue (malloc_in [5, 6]) store_ab create_queue queue_ab = Some (h', dest', True)"
    and cs: "queue_rep h' dest' cs" "map snd cs = [proc_b, proc_a]"
    and sz: "q_size dest' = q_size queue_ab"
    and src: "queue_rep h' queue_ab [(2, proc_b), (1, proc_a)]"
    and later: "\<forall>m ms h'' dest''. allocator m \<longrightarrow> mutate m h' dest' ms = Some (h'', dest'') \<longrightarrow>
        queue_rep h'' queue_ab [(2, proc_b), (1, proc_a)]"
    unfolding copy_ab by auto
  from c mutate_copy_ab obtain h'' dest'' where
    mu: "mutate (malloc_in [7]) h' dest' [Pop 1, Push proc_c, Clear] = Some (h'', dest'')"
    unfolding copy_ab by auto
  from later allocator_malloc_in mu have fin: "queue_rep h'' queue_ab [(2, proc_b), (1, proc_a)]"
    by blast
  have ex: "\<exists>h' dest' cs h'' dest''.
      copy_queue (malloc_in [5, 6]) store_ab create_queue queue_ab = Some (h', dest', True) \<and>
      queue_rep h' dest' cs \<and> map snd cs = [proc_b, proc_a] \<and> q_size dest' = q_size queue_ab \<and>
      queue_rep h' queue_ab [(2, proc_b), (1, proc_a)] \<and>
      mutate (malloc_in [7]) h' dest' [Pop 1, Push proc_c, Clear] = Some (h'', dest'') \<and>
      queue_rep h'' queue_ab [(2, proc_b), (1, proc_a)]"
    by (rule exI [where x = h'], rule exI [where x = dest'], rule exI [where x = cs],
        rule exI [where x = h''], rule exI [where x = dest''], intro conjI)
      (fact c cs sz src mu fin)+
  have "allocator (malloc_in [5])" "allocator (malloc_in [5, 6])" "allocator (malloc_in [7])"
    by (rule allocator_malloc_in)+
  with 1 ex queue_rep_ab show ?thesis by simp
qed

end
